theory Spec2Isabelle
  imports Complex_Main "HOL-Library.Log_Nat"
begin

section \<open>hterm.ScrollPort: numbers, geometry and input deltas\<close>

text \<open>
  A JavaScript number is an IEEE 754 double. A pixel quantity is modelled by the
  rational number that the double is (\<^typ>\<open>rat\<close>), and an arithmetic operation on
  pixel quantities by the exact operation followed by rounding to the nearest
  double, ties to the even significand: a double is \<open>m \<cdot> 2\<^sup>e\<close> with an integer
  \<open>\<bar>m\<bar> < 2\<^sup>5\<^sup>3\<close>. The exponent is not bounded in the model, and infinities and NaN
  are not represented: the model is the arithmetic of the source as long as no
  result overflows or underflows and no divisor is zero.

  Row indices and row counts are integers (\<^typ>\<open>int\<close>). \<^verbatim>\<open>Math.round(x)\<close> is
  \<open>\<lfloor>x + 1/2\<rfloor>\<close>, which is \<^const>\<open>round\<close>.
\<close>

type_synonym px = rat

definition pow2 :: "int \<Rightarrow> rat" where
  "pow2 e = (if 0 \<le> e then 2 ^ nat e else 1 / 2 ^ nat (- e))"

text \<open>The nearest integer, the even one of two that are equally near.\<close>

definition roundHalfEven :: "rat \<Rightarrow> int" where
  "roundHalfEven y =
     (let n = \<lfloor>y\<rfloor>; r = y - of_int n
      in if r < 1 / 2 then n else if 1 / 2 < r then n + 1
         else if even n then n else n + 1)"

text \<open>
  The exponent \<open>e\<close> of the last place of \<open>x \<noteq> 0\<close>: the one with
  \<open>2\<^sup>5\<^sup>2 \<le> \<bar>x\<bar> / 2\<^sup>e < 2\<^sup>5\<^sup>3\<close>. It is found from the bit lengths of numerator and
  denominator, which leave two candidates.
\<close>

definition exponent :: "rat \<Rightarrow> int" where
  "exponent x =
     (let (p, q) = quotient_of \<bar>x\<bar>;
          e0 = bitlen p - bitlen q - 53
      in if \<bar>x\<bar> / pow2 e0 < 2 ^ 53 then e0 else e0 + 1)"

text \<open>Rounding to the nearest double.\<close>

definition fl :: "rat \<Rightarrow> rat" where
  "fl x = (if x = 0 then 0
           else of_int (roundHalfEven (x / pow2 (exponent x))) * pow2 (exponent x))"

text \<open>
  The same rounding in integer arithmetic, on a fraction \<open>p / q\<close> in lowest terms;
  \<open>fl_code\<close> below makes it the equation by which \<^const>\<open>fl\<close> is evaluated.
\<close>

definition roundHalfEvenDiv :: "int \<Rightarrow> int \<Rightarrow> int" where
  "roundHalfEvenDiv a b =
     (let n = a div b; r = a mod b
      in if 2 * r < b then n else if b < 2 * r then n + 1
         else if even n then n else n + 1)"

definition scaled :: "int \<Rightarrow> int \<Rightarrow> int \<Rightarrow> int \<times> int" where
  "scaled p q e = (if 0 \<le> e then (p, q * 2 ^ nat e) else (p * 2 ^ nat (- e), q))"

fun fl_quotient :: "int \<times> int \<Rightarrow> rat" where
  "fl_quotient (p, q) =
     (if p = 0 then 0
      else let e0 = bitlen \<bar>p\<bar> - bitlen q - 53;
               (a0, b0) = scaled \<bar>p\<bar> q e0;
               e = (if a0 < 2 ^ 53 * b0 then e0 else e0 + 1);
               (a, b) = scaled p q e
           in of_int (roundHalfEvenDiv a b) * pow2 e)"

lemma roundHalfEven_divide:
  assumes "0 < b"
  shows "roundHalfEven (of_int a / of_int b) = roundHalfEvenDiv a b"
proof -
  have fl: "\<lfloor>(of_int a :: rat) / of_int b\<rfloor> = a div b"
    by (simp add: floor_divide_of_int_eq)
  have eq: "(of_int (a div b * b + a mod b) :: rat) = of_int a"
    by (simp only: div_mult_mod_eq)
  have "(of_int a :: rat) = of_int (a div b) * of_int b + of_int (a mod b)"
    unfolding eq [symmetric] by (simp only: of_int_add of_int_mult)
  then have "(of_int a :: rat) / of_int b = of_int (a div b) + of_int (a mod b) / of_int b"
    using assms by (simp add: field_simps)
  then have r: "(of_int a :: rat) / of_int b - of_int (a div b) = of_int (a mod b) / of_int b"
    by simp
  have lt: "(of_int (a mod b) :: rat) / of_int b < 1 / 2 \<longleftrightarrow> 2 * (a mod b) < b"
  proof -
    have "(of_int (a mod b) :: rat) / of_int b < 1 / 2 \<longleftrightarrow>
            (of_int (2 * (a mod b)) :: rat) < of_int b"
      using assms by (simp add: field_simps)
    then show ?thesis by (simp only: of_int_less_iff)
  qed
  have gt: "1 / 2 < (of_int (a mod b) :: rat) / of_int b \<longleftrightarrow> b < 2 * (a mod b)"
  proof -
    have "1 / 2 < (of_int (a mod b) :: rat) / of_int b \<longleftrightarrow>
            (of_int b :: rat) < of_int (2 * (a mod b))"
      using assms by (simp add: field_simps)
    then show ?thesis by (simp only: of_int_less_iff)
  qed
  show ?thesis
    unfolding roundHalfEven_def roundHalfEvenDiv_def Let_def fl r lt gt ..
qed

lemma scaled_value:
  assumes "0 < q" and "scaled p q e = (a, b)"
  shows "0 < b" and "of_int p / of_int q / pow2 e = (of_int a :: rat) / of_int b"
proof -
  show "0 < b" using assms by (auto simp: scaled_def split: if_splits)
  show "of_int p / of_int q / pow2 e = (of_int a :: rat) / of_int b"
    using assms by (auto simp: scaled_def pow2_def split: if_splits)
qed

lemma fl_code [code]: "fl x = fl_quotient (quotient_of x)"
proof -
  obtain p q where pq: "quotient_of x = (p, q)"
    by (cases "quotient_of x")
  have q: "0 < q" using pq by (rule quotient_of_denom_pos)
  have x: "x = of_int p / of_int q" using pq by (rule quotient_of_div)
  have ax: "\<bar>x\<bar> = of_int \<bar>p\<bar> / of_int q" using q by (simp add: x)
  have a: "quotient_of \<bar>x\<bar> = (\<bar>p\<bar>, q)"
    by (simp add: rat_abs_code pq)
  have z: "x = 0 \<longleftrightarrow> p = 0" using q by (simp add: x)
  define e0 where "e0 = bitlen \<bar>p\<bar> - bitlen q - 53"
  obtain a0 b0 where s0: "scaled \<bar>p\<bar> q e0 = (a0, b0)"
    by (cases "scaled \<bar>p\<bar> q e0")
  note v0 = scaled_value [OF q s0]
  have c: "\<bar>x\<bar> / pow2 e0 < 2 ^ 53 \<longleftrightarrow> a0 < 2 ^ 53 * b0"
  proof -
    have "\<bar>x\<bar> / pow2 e0 < 2 ^ 53 \<longleftrightarrow> (of_int a0 :: rat) < of_int (2 ^ 53 * b0)"
      unfolding ax v0(2) using v0(1) by (simp add: field_simps)
    then show ?thesis by (simp only: of_int_less_iff)
  qed
  define e where "e = (if a0 < 2 ^ 53 * b0 then e0 else e0 + 1)"
  have "exponent x = (if \<bar>x\<bar> / pow2 e0 < 2 ^ 53 then e0 else e0 + 1)"
    unfolding exponent_def a e0_def by (simp only: Let_def case_prod_conv)
  then have e: "exponent x = e"
    unfolding c e_def .
  obtain a1 b1 where s1: "scaled p q e = (a1, b1)"
    by (cases "scaled p q e")
  note v1 = scaled_value [OF q s1]
  have "roundHalfEven (x / pow2 e) = roundHalfEvenDiv a1 b1"
    unfolding x v1(2) using v1(1) by (rule roundHalfEven_divide)
  then have "fl x = (if p = 0 then 0 else of_int (roundHalfEvenDiv a1 b1) * pow2 e)"
    by (simp add: fl_def z e)
  also have "\<dots> = fl_quotient (p, q)"
    unfolding fl_quotient.simps e0_def [symmetric] Let_def s0 case_prod_conv
      e_def [symmetric] s1 ..
  finally show ?thesis by (simp only: pq)
qed

text \<open>The operators \<^verbatim>\<open>+\<close>, \<^verbatim>\<open>-\<close>, \<^verbatim>\<open>*\<close> and \<^verbatim>\<open>/\<close> of the source on numbers.\<close>

definition num_add :: "px \<Rightarrow> px \<Rightarrow> px" where
  "num_add a b = fl (a + b)"

definition num_sub :: "px \<Rightarrow> px \<Rightarrow> px" where
  "num_sub a b = fl (a - b)"

definition num_mul :: "px \<Rightarrow> px \<Rightarrow> px" where
  "num_mul a b = fl (a * b)"

definition num_div :: "px \<Rightarrow> px \<Rightarrow> px" where
  "num_div a b = fl (a / b)"

text \<open>\<^verbatim>\<open>hterm.Size\<close>: the measured size of one character cell.\<close>

record size =
  width :: px
  height :: px

text \<open>
  Modelled from the spec: \<^verbatim>\<open>lib.f.smartFloorDivide\<close> lives in libdot, outside the
  sources at hand. The specification describes the visible row count as
  ``the integer floor of the division''; the division is the one of the source's
  numbers.
\<close>

definition smartFloorDivide :: "px \<Rightarrow> px \<Rightarrow> int" where
  "smartFloorDivide numerator denominator = \<lfloor>num_div numerator denominator\<rfloor>"

section \<open>The data model\<close>

text \<open>
  Names follow the source; a trailing underscore (\<^verbatim>\<open>redraw_\<close>, \<^verbatim>\<open>rowNodes_\<close>) is
  dropped, since an Isabelle name cannot end in one.

  A row node (\<^verbatim>\<open>x-row\<close>) is an object identity together with its \<^verbatim>\<open>rowIndex\<close>.
\<close>

datatype row = XRow (nid: int) (rowIndex: int)

text \<open>
  The children of \<^verbatim>\<open>rowNodes_\<close>, in document order: the two folds, row nodes and
  the two select bags.
\<close>

datatype slot = TopFold | BottomFold | Row row | TopSelectBag | BottomSelectBag

text \<open>\<^verbatim>\<open>node.rowIndex\<close>: a number on a row, \<^verbatim>\<open>undefined\<close> on every other node.\<close>

fun slotRowIndex :: "slot \<Rightarrow> int option" where
  "slotRowIndex (Row r) = Some (rowIndex r)"
| "slotRowIndex _ = None"

text \<open>Everything the source throws, and the exceptions the DOM raises for it.\<close>

datatype error =
    SelectionSyncError
  | DidNotEncounterTarget
  | EncounteredBottomFold
  | TypeError
  | NotFoundError

text \<open>Sequencing of steps that may throw: the first error ends the run.\<close>

fun andThen :: "error + 'a \<Rightarrow> ('a \<Rightarrow> error + 'b) \<Rightarrow> error + 'b" where
  "andThen (Inl e) f = Inl e"
| "andThen (Inr v) f = f v"

text \<open>\<^verbatim>\<open>WheelEvent.deltaMode\<close>: the three DOM constants, and any other value.\<close>

datatype deltaMode = DOM_DELTA_PIXEL | DOM_DELTA_LINE | DOM_DELTA_PAGE | DOM_DELTA_OTHER

record wheelEvent =
  deltaMode :: deltaMode
  deltaX :: px
  deltaY :: px

text \<open>The result \<^verbatim>\<open>{x: ..., y: ...}\<close> of \<^verbatim>\<open>scrollWheelDelta\<close>.\<close>

record delta =
  delta_x :: px
  delta_y :: px

text \<open>A scrubbed touch: \<^verbatim>\<open>{id: t.identifier, y: t.clientY, x: t.clientX}\<close>.\<close>

record touch =
  touch_id :: nat
  touch_y :: px
  touch_x :: px

text \<open>
  The descendants of a node, seen downwards (\<^verbatim>\<open>firstChild\<close>, \<^verbatim>\<open>nextSibling\<close>,
  \<^verbatim>\<open>childNodes\<close>): an identity and the list of children. Identities are integers.
\<close>

datatype tree = Tree (tid: int) (kids: "tree list")

text \<open>
  A node seen upwards, as the selection hands it over: identity, \<^verbatim>\<open>nodeName\<close>,
  \<^verbatim>\<open>rowIndex\<close> (read on rows only), its children and its \<^verbatim>\<open>parentNode\<close>
  (\<open>None\<close> at the root).
\<close>

datatype pnode =
  PNode (pid: int) (nodeName: string) (prowIndex: int) (childNodes: "tree list")
        (parentNode: "pnode option")

text \<open>The host's selection object, as \<^verbatim>\<open>getSelection()\<close> returns it.\<close>

record domSelection =
  anchorNode :: "pnode option"
  anchorOffset :: nat
  focusNode :: "pnode option"
  focusOffset :: nat
  sel_isCollapsed :: bool

text \<open>\<^verbatim>\<open>hterm.ScrollPort.Selection\<close>; \<open>None\<close> is \<^verbatim>\<open>null\<close>.\<close>

record selection =
  startRow :: "row option"
  endRow :: "row option"
  isMultiline :: "bool option"
  isCollapsed :: "bool option"

text \<open>
  The row provider: \<^verbatim>\<open>getRowCount\<close>, \<^verbatim>\<open>getRowNode\<close>, \<^verbatim>\<open>getRowsText\<close>. An index
  handed to \<^verbatim>\<open>getRowsText\<close> is \<open>None\<close> when the source computes it from the
  \<^verbatim>\<open>rowIndex\<close> of a node that has none.
\<close>

record rowProvider =
  getRowCount :: int
  getRowNode :: "int \<Rightarrow> row option"
  getRowsText :: "int option \<Rightarrow> int option \<Rightarrow> string"

text \<open>
  Callbacks handed to \<^verbatim>\<open>setTimeout\<close> and not yet run. Only the callback of
  \<^verbatim>\<open>scheduleRedraw\<close> is modelled.
\<close>

datatype task = RedrawTask

text \<open>
  The scroll port. The fields up to \<open>visibleRowBottomMargin\<close> are the object's
  own; the rest is the part of the document and of the host that the methods
  read and write:
  \<^item> \<open>rowNodes\<close>: the children of \<^verbatim>\<open>rowNodes_\<close>;
  \<^item> \<open>topSelectBagText\<close>, \<open>bottomSelectBagText\<close>: the bags' \<^verbatim>\<open>textContent\<close>;
  \<^item> \<open>scrollTop\<close>: \<^verbatim>\<open>screen_.scrollTop\<close>;
  \<^item> \<open>screenClientSize\<close>: \<^verbatim>\<open>hterm.getClientSize(this.screen_)\<close>;
  \<^item> \<open>scrollAreaHeight\<close>: the height given to \<^verbatim>\<open>scrollArea_\<close>, which
    \<^verbatim>\<open>hterm.getClientHeight(this.scrollArea_)\<close> reads back;
  \<^item> \<open>documentSelection\<close>: \<^verbatim>\<open>getDocument().getSelection()\<close>;
  \<^item> \<open>accessibilityEnabled\<close>: \<^verbatim>\<open>accessibilityReader_ && accessibilityReader_.accessibilityEnabled\<close>;
  \<^item> \<open>pendingTasks\<close>: the timer callbacks armed and not yet fired;
  \<^item> \<open>timeouts_redraw\<close>: \<^verbatim>\<open>timeouts_.redraw\<close>, the handle of the armed timer
    (handles are positive, hence truthy).
\<close>

record scrollPort =
  rowProvider :: rowProvider
  characterSize :: size
  selection :: selection
  currentRowNodeCache :: "(int \<rightharpoonup> row) option"
  previousRowNodeCache :: "(int \<rightharpoonup> row) option"
  lastScreenWidth :: "px option"
  lastScreenHeight :: "px option"
  lastRowCount :: int
  scrollWheelMultiplier :: px
  lastTouch :: "nat \<rightharpoonup> touch"
  isScrolledEnd :: bool
  currentScrollbarWidthPx :: px
  timeouts_redraw :: "nat option"
  ariaHiddenSelectionRows :: "row list"
  visibleRowCount :: int
  visibleRowTopMargin :: px
  visibleRowBottomMargin :: px
  rowNodes :: "slot list"
  topSelectBagText :: string
  bottomSelectBagText :: string
  scrollTop :: px
  screenClientSize :: size
  scrollAreaHeight :: px
  documentSelection :: "domSelection option"
  accessibilityEnabled :: bool
  pendingTasks :: "task list"

section \<open>Input normalisation\<close>

text \<open>
  \<^verbatim>\<open>scrollWheelDelta\<close>. \<^verbatim>\<open>this.screen_\<close> is the \<^verbatim>\<open>x-screen\<close> element that \<^verbatim>\<open>decorate\<close>
  creates, the only value the field is given. An element has no method
  \<^verbatim>\<open>getWidth\<close> or \<^verbatim>\<open>getHeight\<close>, so the call \<^verbatim>\<open>this.screen_.getWidth()\<close> of the
  page mode throws a TypeError.
\<close>

definition scrollWheelDelta :: "scrollPort \<Rightarrow> wheelEvent \<Rightarrow> error + delta" where
  "scrollWheelDelta this e =
     andThen
       (case deltaMode e of
          DOM_DELTA_PIXEL \<Rightarrow>
            Inr \<lparr>delta_x = num_mul (deltaX e) (scrollWheelMultiplier this),
                 delta_y = num_mul (deltaY e) (scrollWheelMultiplier this)\<rparr>
        | DOM_DELTA_LINE \<Rightarrow>
            Inr \<lparr>delta_x = num_mul (deltaX e) (width (characterSize this)),
                 delta_y = num_mul (deltaY e) (height (characterSize this))\<rparr>
        | DOM_DELTA_PAGE \<Rightarrow> Inl TypeError
        | DOM_DELTA_OTHER \<Rightarrow> Inr \<lparr>delta_x = 0, delta_y = 0\<rparr>)
       (\<lambda>d. Inr (d\<lparr>delta_y := num_mul (delta_y d) (- 1)\<rparr>))"

section \<open>Geometry and scroll position\<close>

definition getScreenSize :: "scrollPort \<Rightarrow> size" where
  "getScreenSize this =
     \<lparr>width = num_sub (width (screenClientSize this)) (currentScrollbarWidthPx this),
      height = height (screenClientSize this)\<rparr>"

definition getScreenWidth :: "scrollPort \<Rightarrow> px" where
  "getScreenWidth this = width (getScreenSize this)"

definition getScreenHeight :: "scrollPort \<Rightarrow> px" where
  "getScreenHeight this = height (getScreenSize this)"

text \<open>
  \<^verbatim>\<open>syncRowNodesDimensions_\<close>: the style updates of \<^verbatim>\<open>rowNodes_\<close> and of the top fold
  are left out; the fields of the object are kept.
\<close>

definition syncRowNodesDimensions :: "scrollPort \<Rightarrow> scrollPort" where
  "syncRowNodesDimensions this =
     (let screenSize = getScreenSize this;
          count = smartFloorDivide (height screenSize) (height (characterSize this));
          visibleRowsHeight = num_mul (of_int count) (height (characterSize this))
      in this\<lparr>lastScreenWidth := Some (width screenSize),
              lastScreenHeight := Some (height screenSize),
              visibleRowCount := count,
              visibleRowTopMargin := 0,
              visibleRowBottomMargin := num_sub (height screenSize) visibleRowsHeight\<rparr>)"

definition syncScrollHeight :: "scrollPort \<Rightarrow> scrollPort" where
  "syncScrollHeight this =
     (let n = getRowCount (rowProvider this)
      in this\<lparr>lastRowCount := n,
              scrollAreaHeight :=
                num_add (num_add (num_mul (height (characterSize this)) (of_int n))
                                 (visibleRowTopMargin this))
                        (visibleRowBottomMargin this)\<rparr>)"

definition getScrollMax :: "scrollPort \<Rightarrow> px" where
  "getScrollMax this =
     num_sub (num_add (num_add (scrollAreaHeight this) (visibleRowTopMargin this))
                      (visibleRowBottomMargin this))
             (height (screenClientSize this))"

definition getTopRowIndex :: "scrollPort \<Rightarrow> int" where
  "getTopRowIndex this = round (num_div (scrollTop this) (height (characterSize this)))"

definition getBottomRowIndex :: "scrollPort \<Rightarrow> int \<Rightarrow> int" where
  "getBottomRowIndex this topRowIndex = topRowIndex + visibleRowCount this - 1"

section \<open>Scheduling\<close>

text \<open>
  \<^verbatim>\<open>setTimeout(f, 0)\<close> appends the callback to the pending tasks and returns a
  positive handle.
\<close>

definition scheduleRedraw :: "scrollPort \<Rightarrow> scrollPort" where
  "scheduleRedraw this =
     (case timeouts_redraw this of
        Some handle \<Rightarrow> this
      | None \<Rightarrow> this\<lparr>timeouts_redraw := Some (Suc (length (pendingTasks this))),
                      pendingTasks := pendingTasks this @ [RedrawTask]\<rparr>)"

text \<open>
  \<^verbatim>\<open>screen_.scrollTop\<close> is the scroll offset of the \<^verbatim>\<open>x-screen\<close> element. The element
  keeps an offset assigned to it within its scroll range, from 0 to
  \<^verbatim>\<open>scrollHeight - clientHeight\<close>; what it scrolls is \<^verbatim>\<open>scrollArea_\<close>, whose height is
  its scroll height. \<^verbatim>\<open>scrollRowToTop\<close> leaves the lower bound to the element.
\<close>

definition screenScrollRange :: "scrollPort \<Rightarrow> px" where
  "screenScrollRange this =
     max 0 (num_sub (scrollAreaHeight this) (height (screenClientSize this)))"

definition assignScrollTop :: "scrollPort \<Rightarrow> px \<Rightarrow> scrollPort" where
  "assignScrollTop this v = this\<lparr>scrollTop := max 0 (min v (screenScrollRange this))\<rparr>"

definition scrollRowToTop :: "scrollPort \<Rightarrow> int \<Rightarrow> scrollPort" where
  "scrollRowToTop this0 rowIdx =
     (let this1 = syncScrollHeight this0;
          this2 = this1\<lparr>isScrolledEnd :=
                    (rowIdx + visibleRowCount this1 \<ge> lastRowCount this1)\<rparr>;
          scrollTop1 = num_add (num_mul (of_int rowIdx) (height (characterSize this2)))
                               (visibleRowTopMargin this2);
          scrollMax = getScrollMax this2;
          scrollTop2 = (if scrollTop1 > scrollMax then scrollMax else scrollTop1)
      in if scrollTop this2 = scrollTop2 then this2
         else scheduleRedraw (assignScrollTop this2 scrollTop2))"

section \<open>Touch events\<close>






section \<open>The children of rowNodes_\<close>

text \<open>
  The DOM operations the source uses on \<^verbatim>\<open>rowNodes_\<close>, on the list of its
  children. A detached node has no siblings; \<^verbatim>\<open>removeChild\<close> of a node that is
  not a child and \<^verbatim>\<open>insertBefore\<close> a reference that is not a child raise a
  NotFoundError; a node that is inserted is first taken out of the place it has.
\<close>

definition firstChild :: "slot list \<Rightarrow> slot option" where
  "firstChild xs = (case xs of [] \<Rightarrow> None | n # _ \<Rightarrow> Some n)"

definition lastChild :: "slot list \<Rightarrow> slot option" where
  "lastChild xs = (if xs = [] then None else Some (last xs))"

fun nextSibling :: "slot list \<Rightarrow> slot \<Rightarrow> slot option" where
  "nextSibling [] n = None"
| "nextSibling [a] n = None"
| "nextSibling (a # b # xs) n = (if a = n then Some b else nextSibling (b # xs) n)"


definition removeChild :: "slot list \<Rightarrow> slot \<Rightarrow> error + slot list" where
  "removeChild xs n = (if n \<in> set xs then Inr (remove1 n xs) else Inl NotFoundError)"

fun insertAt :: "slot \<Rightarrow> slot \<Rightarrow> slot list \<Rightarrow> slot list" where
  "insertAt new ref [] = []"
| "insertAt new ref (a # xs) = (if a = ref then new # a # xs else a # insertAt new ref xs)"

definition insertBefore :: "slot list \<Rightarrow> slot \<Rightarrow> slot option \<Rightarrow> error + slot list" where
  "insertBefore xs new ref =
     (case ref of
        None \<Rightarrow> Inr (remove1 new xs @ [new])
      | Some r \<Rightarrow>
          if r \<notin> set xs then Inl NotFoundError
          else if r = new then Inr xs
          else Inr (insertAt new r (remove1 new xs)))"

definition appendChild :: "slot list \<Rightarrow> slot \<Rightarrow> slot list" where
  "appendChild xs new = remove1 new xs @ [new]"

lemma nextSibling_in_set: "nextSibling xs n = Some m \<Longrightarrow> m \<in> set xs"
  by (induction xs n rule: nextSibling.induct) (auto split: if_splits)

lemma length_remove1_less: "n \<in> set xs \<Longrightarrow> length (remove1 n xs) < length xs"
  by (induction xs) auto

section \<open>Selection\<close>

text \<open>
  \<^verbatim>\<open>findFirstChild(parent, childAry)\<close>: the first node of \<open>childAry\<close> in a
  depth-first walk below \<open>parent\<close>; nodes are compared by identity. The second
  function is the loop over the siblings, from \<^verbatim>\<open>parent.firstChild\<close> on.
\<close>

fun findFirstChild :: "tree \<Rightarrow> int list \<Rightarrow> int option"
  and findFirstSibling :: "tree list \<Rightarrow> int list \<Rightarrow> int option" where
  "findFirstChild (Tree i ks) childAry = findFirstSibling ks childAry"
| "findFirstSibling [] childAry = None"
| "findFirstSibling (Tree i ks # rest) childAry =
     (if i \<in> set childAry then Some i
      else case (if ks \<noteq> [] then findFirstChild (Tree i ks) childAry else None) of
             Some rv \<Rightarrow> Some rv
           | None \<Rightarrow> findFirstSibling rest childAry)"

text \<open>
  What the claims call the descendants of a node in document order: every node
  below it, a node before its own children and these before its later siblings.
\<close>

fun descendants :: "tree \<Rightarrow> int list"
  and descendantsOf :: "tree list \<Rightarrow> int list" where
  "descendants (Tree i ks) = descendantsOf ks"
| "descendantsOf [] = []"
| "descendantsOf (Tree i ks # rest) = i # descendants (Tree i ks) @ descendantsOf rest"

text \<open>
  The walk up the parents: \<^verbatim>\<open>while (row && row.nodeName != 'X-ROW') row = row.parentNode\<close>.
\<close>

fun findRow :: "pnode option \<Rightarrow> pnode option" where
  "findRow None = None"
| "findRow (Some (PNode i name idx ks parent)) =
     (if name = ''X-ROW'' then Some (PNode i name idx ks parent) else findRow parent)"

text \<open>The row node that a resolved \<^verbatim>\<open>x-row\<close> element is.\<close>

definition rowOf :: "pnode \<Rightarrow> row" where
  "rowOf p = XRow (pid p) (prowIndex p)"

text \<open>
  \<^verbatim>\<open>Selection.prototype.sync\<close>, as a function of what it reads: the document's
  selection and whether accessibility is enabled. The result is the new content
  of the selection object. The fields \<^verbatim>\<open>startNode\<close>, \<^verbatim>\<open>startOffset\<close>, \<^verbatim>\<open>endNode\<close>
  and \<^verbatim>\<open>endOffset\<close> are read nowhere in the file and are left out.
\<close>

definition selectionSync :: "domSelection option \<Rightarrow> bool \<Rightarrow> error + selection" where
  "selectionSync docSelection a11y =
     (let cleared = \<lparr>startRow = None, endRow = None, isMultiline = None,
                     isCollapsed = Some (case docSelection of
                                           None \<Rightarrow> True | Some s \<Rightarrow> sel_isCollapsed s)\<rparr>
      in case docSelection of
        None \<Rightarrow> Inr cleared
      | Some s \<Rightarrow>
          if sel_isCollapsed s \<and> \<not> a11y then Inr cleared
          else case findRow (anchorNode s) of
            None \<Rightarrow> Inr cleared
          | Some anchorRow \<Rightarrow>
             (case findRow (focusNode s) of
                None \<Rightarrow> Inr cleared
              | Some focusRow \<Rightarrow>
                 (let anchorFirst = cleared\<lparr>startRow := Some (rowOf anchorRow),
                                            endRow := Some (rowOf focusRow)\<rparr>;
                      focusFirst = cleared\<lparr>startRow := Some (rowOf focusRow),
                                           endRow := Some (rowOf anchorRow)\<rparr>;
                      multi = Some (prowIndex anchorRow \<noteq> prowIndex focusRow);
                      done = (\<lambda>sel. Inr (sel\<lparr>isMultiline := multi\<rparr>))
                  in if prowIndex anchorRow < prowIndex focusRow then done anchorFirst
                     else if prowIndex anchorRow > prowIndex focusRow then done focusFirst
                     else if map_option pid (focusNode s) = map_option pid (anchorNode s)
                     then (if anchorOffset s < focusOffset s then done anchorFirst
                           else done focusFirst)
                     else case findFirstChild (Tree (pid anchorRow) (childNodes anchorRow))
                                 [pid (the (anchorNode s)), pid (the (focusNode s))] of
                            None \<Rightarrow> Inl SelectionSyncError
                          | Some firstNode \<Rightarrow>
                              if firstNode = pid (the (anchorNode s)) then done anchorFirst
                              else done focusFirst)))"

text \<open>\<^verbatim>\<open>this.selection.sync()\<close> on the scroll port.\<close>

definition sync :: "scrollPort \<Rightarrow> error + scrollPort" where
  "sync this =
     andThen (selectionSync (documentSelection this) (accessibilityEnabled this))
       (\<lambda>sel. Inr (this\<lparr>selection := sel\<rparr>))"

section \<open>The reconciliation pass\<close>

text \<open>
  \<^verbatim>\<open>resetSelectBags_\<close>: a bag that has a parent is a child of \<^verbatim>\<open>rowNodes_\<close>, the only
  place the source inserts it.
\<close>

definition resetSelectBags :: "scrollPort \<Rightarrow> scrollPort" where
  "resetSelectBags this =
     (let this1 = (if TopSelectBag \<in> set (rowNodes this)
                   then this\<lparr>topSelectBagText := [],
                             rowNodes := remove1 TopSelectBag (rowNodes this)\<rparr>
                   else this)
      in if BottomSelectBag \<in> set (rowNodes this1)
         then this1\<lparr>bottomSelectBagText := [],
                    rowNodes := remove1 BottomSelectBag (rowNodes this1)\<rparr>
         else this1)"

text \<open>
  The loops of the fold placement. Each removes one child per turn; when the
  node it waits for never comes, \<^verbatim>\<open>removeChild(null)\<close> throws a TypeError.

  \<^verbatim>\<open>while (startRow.nextSibling != endRow) removeChild(startRow.nextSibling)\<close>:
\<close>

function trimIntermediate :: "slot list \<Rightarrow> slot \<Rightarrow> slot \<Rightarrow> error + slot list" where
  "trimIntermediate xs s e =
     (case nextSibling xs s of
        None \<Rightarrow> Inl TypeError
      | Some n \<Rightarrow> if n = e then Inr xs else trimIntermediate (remove1 n xs) s e)"
  by pat_completeness auto
termination
  by (relation "measure (\<lambda>(xs, s, e). length xs)")
     (auto dest!: nextSibling_in_set intro: length_remove1_less)

declare trimIntermediate.simps [simp del]

text \<open>\<^verbatim>\<open>while (rowNodes_.firstChild != startRow) removeChild(rowNodes_.firstChild)\<close>:\<close>

fun removeLeading :: "slot list \<Rightarrow> slot \<Rightarrow> error + slot list" where
  "removeLeading [] s = Inl TypeError"
| "removeLeading (a # xs) s = (if a = s then Inr (a # xs) else removeLeading xs s)"

text \<open>\<^verbatim>\<open>while (rowNodes_.lastChild != endRow) removeChild(rowNodes_.lastChild)\<close>:\<close>

function removeTrailing :: "slot list \<Rightarrow> slot \<Rightarrow> error + slot list" where
  "removeTrailing xs e =
     (if xs = [] then Inl TypeError
      else if last xs = e then Inr xs
      else removeTrailing (butlast xs) e)"
  by pat_completeness auto
termination
  by (relation "measure (\<lambda>(xs, e). length xs)") auto

declare removeTrailing.simps [simp del]

text \<open>
  \<^verbatim>\<open>drawTopFold_\<close> and \<^verbatim>\<open>drawBottomFold_\<close> on the children; reading \<^verbatim>\<open>rowIndex\<close> of
  a selection row that is \<^verbatim>\<open>null\<close> throws a TypeError.
\<close>

definition drawTopFoldNodes :: "selection \<Rightarrow> int \<Rightarrow> slot list \<Rightarrow> error + slot list" where
  "drawTopFoldNodes sel topRowIndex xs =
     (let foldFirst = (if firstChild xs \<noteq> Some TopFold
                       then insertBefore xs TopFold (firstChild xs) else Inr xs)
      in case startRow sel of
        None \<Rightarrow> foldFirst
      | Some s \<Rightarrow>
          if rowIndex s \<ge> topRowIndex then foldFirst
          else if isMultiline sel \<noteq> Some True then
            andThen (if nextSibling xs (Row s) \<noteq> Some TopFold
                     then insertBefore xs TopFold (nextSibling xs (Row s)) else Inr xs)
              (\<lambda>xs1. removeLeading xs1 (Row s))
          else case endRow sel of
            None \<Rightarrow> Inl TypeError
          | Some e \<Rightarrow>
              if rowIndex e \<ge> topRowIndex then
                andThen (if nextSibling xs (Row s) \<noteq> Some TopFold
                         then insertBefore xs TopFold (nextSibling xs (Row s)) else Inr xs)
                  (\<lambda>xs1. removeLeading xs1 (Row s))
              else
                andThen
                  (andThen (if nextSibling xs (Row e) \<noteq> Some TopFold
                            then insertBefore xs TopFold (nextSibling xs (Row e)) else Inr xs)
                     (\<lambda>xs1. trimIntermediate xs1 (Row s) (Row e)))
                  (\<lambda>xs2. removeLeading xs2 (Row s)))"

definition drawBottomFoldNodes :: "selection \<Rightarrow> int \<Rightarrow> slot list \<Rightarrow> error + slot list" where
  "drawBottomFoldNodes sel bottomRowIndex xs =
     (let foldLast = (if lastChild xs \<noteq> Some BottomFold
                      then Inr (appendChild xs BottomFold) else Inr xs)
      in case endRow sel of
        None \<Rightarrow> foldLast
      | Some e \<Rightarrow>
          if rowIndex e \<le> bottomRowIndex then foldLast
          else if isMultiline sel \<noteq> Some True then
            andThen (if nextSibling xs BottomFold \<noteq> Some (Row e)
                     then insertBefore xs BottomFold (Some (Row e)) else Inr xs)
              (\<lambda>xs1. removeTrailing xs1 (Row e))
          else case startRow sel of
            None \<Rightarrow> Inl TypeError
          | Some s \<Rightarrow>
              if rowIndex s \<le> bottomRowIndex then
                andThen (if nextSibling xs BottomFold \<noteq> Some (Row e)
                         then insertBefore xs BottomFold (Some (Row e)) else Inr xs)
                  (\<lambda>xs1. removeTrailing xs1 (Row e))
              else
                andThen
                  (andThen (if nextSibling xs BottomFold \<noteq> Some (Row s)
                            then insertBefore xs BottomFold (Some (Row s)) else Inr xs)
                     (\<lambda>xs1. trimIntermediate xs1 (Row s) (Row e)))
                  (\<lambda>xs2. removeTrailing xs2 (Row e)))"

definition drawTopFold :: "scrollPort \<Rightarrow> int \<Rightarrow> error + scrollPort" where
  "drawTopFold this topRowIndex =
     andThen (drawTopFoldNodes (selection this) topRowIndex (rowNodes this))
       (\<lambda>xs. Inr (this\<lparr>rowNodes := xs\<rparr>))"

definition drawBottomFold :: "scrollPort \<Rightarrow> int \<Rightarrow> error + scrollPort" where
  "drawBottomFold this bottomRowIndex =
     andThen (drawBottomFoldNodes (selection this) bottomRowIndex (rowNodes this))
       (\<lambda>xs. Inr (this\<lparr>rowNodes := xs\<rparr>))"

text \<open>
  \<^verbatim>\<open>removeUntilNode(currentNode, targetNode)\<close> of \<^verbatim>\<open>drawVisibleRows_\<close>. The node to
  remove is taken out through its parent; a node without a parent makes that a
  TypeError.
\<close>

function removeUntilNode :: "slot list \<Rightarrow> slot option \<Rightarrow> slot \<Rightarrow> error + slot list" where
  "removeUntilNode xs currentNode targetNode =
     (if currentNode = Some targetNode then Inr xs
      else case currentNode of
        None \<Rightarrow> Inl DidNotEncounterTarget
      | Some deadNode \<Rightarrow>
          if deadNode = BottomFold then Inl EncounteredBottomFold
          else if deadNode \<notin> set xs then Inl TypeError
          else removeUntilNode (remove1 deadNode xs) (nextSibling xs deadNode) targetNode)"
  by pat_completeness auto
termination
  by (relation "measure (\<lambda>(xs, c, t). length xs)") (auto intro: length_remove1_less)

declare removeUntilNode.simps [simp del]

text \<open>
  \<^verbatim>\<open>fetchRowNode_\<close>, with \<^verbatim>\<open>cacheRowNode_\<close> inlined: the node comes from the previous
  cache when the index is a key of it, from the row provider otherwise. When a
  current cache exists the node is stored under its own \<^verbatim>\<open>rowIndex\<close>, before
  anything looks at it: \<^verbatim>\<open>rowNode.rowIndex\<close> of a node that is not there throws a
  TypeError.
\<close>

definition fetchRowNode :: "scrollPort \<Rightarrow> int \<Rightarrow> error + (row option \<times> scrollPort)" where
  "fetchRowNode this rowIdx =
     (let node = (case previousRowNodeCache this of
                    None \<Rightarrow> getRowNode (rowProvider this) rowIdx
                  | Some prev \<Rightarrow>
                      (case prev rowIdx of
                         Some cached \<Rightarrow> Some cached
                       | None \<Rightarrow> getRowNode (rowProvider this) rowIdx))
      in case currentRowNodeCache this of
           None \<Rightarrow> Inr (node, this)
         | Some cur \<Rightarrow>
             (case node of
                None \<Rightarrow> Inl TypeError
              | Some rowNode \<Rightarrow>
                  Inr (node, this\<lparr>currentRowNodeCache := Some (cur(rowIndex rowNode \<mapsto> rowNode))\<rparr>)))"

text \<open>
  One turn of the loop of \<^verbatim>\<open>drawVisibleRows_\<close>, for the row index \<open>rowIdx\<close> and the
  node under examination: the turn ends in \<^verbatim>\<open>break\<close> or goes on with a new state
  and node.
\<close>

datatype turn = Break | Continue

text \<open>
  The fetch that three branches of the loop share:
  \<^verbatim>\<open>var newNode = this.fetchRowNode_(rowIndex); if (!newNode) { console.log(...); break; }\<close>
  and then the rest of the branch, \<open>k\<close>.
\<close>

definition fetchOrBreak ::
  "scrollPort \<Rightarrow> int \<Rightarrow> slot option \<Rightarrow>
   (row \<Rightarrow> scrollPort \<Rightarrow> error + (turn \<times> scrollPort \<times> slot option)) \<Rightarrow>
   error + (turn \<times> scrollPort \<times> slot option)" where
  "fetchOrBreak this rowIdx node k =
     (case fetchRowNode this rowIdx of
        Inl err \<Rightarrow> Inl err
      | Inr (None, this1) \<Rightarrow> Inr (Break, this1, node)
      | Inr (Some newNode, this1) \<Rightarrow> k newNode this1)"

definition drawStep ::
  "scrollPort \<Rightarrow> int \<Rightarrow> slot option \<Rightarrow> error + (turn \<times> scrollPort \<times> slot option)" where
  "drawStep this rowIdx node =
     (let selectionStartRow = startRow (selection this);
          selectionEndRow = endRow (selection this)
      in if node = Some BottomFold then
           fetchOrBreak this rowIdx node (\<lambda>newNode this1.
             andThen (insertBefore (rowNodes this1) (Row newNode) node)
               (\<lambda>xs. Inr (Continue, this1\<lparr>rowNodes := xs\<rparr>, node)))
         else case node of
           None \<Rightarrow> Inl TypeError
         | Some n \<Rightarrow>
             if slotRowIndex n = Some rowIdx then
               Inr (Continue, this, nextSibling (rowNodes this) n)
             else if (case selectionStartRow of None \<Rightarrow> False | Some s \<Rightarrow> rowIndex s = rowIdx) then
               andThen (removeUntilNode (rowNodes this) node (Row (the selectionStartRow)))
                 (\<lambda>xs. Inr (Continue, this\<lparr>rowNodes := xs\<rparr>,
                             nextSibling xs (Row (the selectionStartRow))))
             else if (case selectionEndRow of None \<Rightarrow> False | Some e \<Rightarrow> rowIndex e = rowIdx) then
               andThen (removeUntilNode (rowNodes this) node (Row (the selectionEndRow)))
                 (\<lambda>xs. Inr (Continue, this\<lparr>rowNodes := xs\<rparr>,
                             nextSibling xs (Row (the selectionEndRow))))
             else if node = map_option Row selectionStartRow \<or>
                     node = map_option Row selectionEndRow then
               fetchOrBreak this rowIdx node (\<lambda>newNode this1.
                 andThen (insertBefore (rowNodes this1) (Row newNode) node)
                   (\<lambda>xs. Inr (Continue, this1\<lparr>rowNodes := xs\<rparr>, node)))
             else
               fetchOrBreak this rowIdx node (\<lambda>newNode this1.
                 if n = Row newNode then
                   Inr (Continue, this1, nextSibling (rowNodes this1) n)
                 else
                   andThen (insertBefore (rowNodes this1) (Row newNode) node)
                     (\<lambda>xs. andThen (removeChild xs n)
                       (\<lambda>xs1. Inr (Continue, this1\<lparr>rowNodes := xs1\<rparr>,
                                    nextSibling xs1 (Row newNode))))))"

text \<open>The \<^verbatim>\<open>for\<close> loop: \<open>drawCount\<close> runs up to \<open>targetDrawCount\<close>.\<close>

function drawLoop ::
  "scrollPort \<Rightarrow> int \<Rightarrow> int \<Rightarrow> int \<Rightarrow> slot option \<Rightarrow> error + (scrollPort \<times> slot option)" where
  "drawLoop this topRowIndex targetDrawCount drawCount node =
     (if drawCount < targetDrawCount then
        (case drawStep this (topRowIndex + drawCount) node of
           Inl err \<Rightarrow> Inl err
         | Inr (Break, this1, node1) \<Rightarrow> Inr (this1, node1)
         | Inr (Continue, this1, node1) \<Rightarrow>
             drawLoop this1 topRowIndex targetDrawCount (drawCount + 1) node1)
      else Inr (this, node))"
  by pat_completeness auto
termination
  by (relation "measure (\<lambda>(this, t, target, dc, n). nat (target - dc))") auto

declare drawLoop.simps [simp del]

definition drawVisibleRows :: "scrollPort \<Rightarrow> int \<Rightarrow> int \<Rightarrow> error + scrollPort" where
  "drawVisibleRows this topRowIndex bottomRowIndex =
     (let node = nextSibling (rowNodes this) TopFold;
          targetDrawCount = min (visibleRowCount this) (getRowCount (rowProvider this))
      in case drawLoop this topRowIndex targetDrawCount 0 node of
           Inl err \<Rightarrow> Inl err
         | Inr (this1, node1) \<Rightarrow>
             if node1 \<noteq> Some BottomFold then
               andThen (removeUntilNode (rowNodes this1) node1 BottomFold)
                 (\<lambda>xs. Inr (this1\<lparr>rowNodes := xs\<rparr>))
             else Inr this1)"

text \<open>
  \<^verbatim>\<open>ariaHideOffscreenSelectionRows_\<close>: the list of hidden rows is emptied, then the
  selection rows outside the window are put on it. The \<^verbatim>\<open>aria-hidden\<close> attribute
  of a row is set exactly while the row is on the list.
\<close>

definition ariaHideOffscreenSelectionRows :: "scrollPort \<Rightarrow> int \<Rightarrow> int \<Rightarrow> scrollPort" where
  "ariaHideOffscreenSelectionRows this topRowIndex bottomRowIndex =
     (let checkRow = (\<lambda>r. case r of
                        None \<Rightarrow> []
                      | Some rw \<Rightarrow> if rowIndex rw < topRowIndex \<or> rowIndex rw > bottomRowIndex
                                   then [rw] else [])
      in this\<lparr>ariaHiddenSelectionRows :=
                checkRow (startRow (selection this)) @ checkRow (endRow (selection this))\<rparr>)"

text \<open>\<^verbatim>\<open>redraw_\<close>; \<^verbatim>\<open>updateScrollButtonState_\<close> only styles the two buttons.\<close>

definition redraw :: "scrollPort \<Rightarrow> error + scrollPort" where
  "redraw this0 =
     andThen (sync (resetSelectBags this0)) (\<lambda>this1.
       let this2 = (syncScrollHeight this1)\<lparr>currentRowNodeCache := Some Map.empty\<rparr>;
           topRowIndex = getTopRowIndex this2;
           bottomRowIndex = getBottomRowIndex this2 topRowIndex
       in andThen (drawTopFold this2 topRowIndex) (\<lambda>this3.
          andThen (drawBottomFold this3 bottomRowIndex) (\<lambda>this4.
          andThen (drawVisibleRows this4 topRowIndex bottomRowIndex) (\<lambda>this5.
            let this6 = syncRowNodesDimensions
                          (ariaHideOffscreenSelectionRows this5 topRowIndex bottomRowIndex);
                this7 = this6\<lparr>previousRowNodeCache := currentRowNodeCache this6,
                              currentRowNodeCache := None\<rparr>
            in Inr (this7\<lparr>isScrolledEnd :=
                      (getTopRowIndex this7 + visibleRowCount this7 \<ge> lastRowCount this7)\<rparr>)))))"

text \<open>The callback that \<^verbatim>\<open>scheduleRedraw\<close> arms.\<close>

definition redrawTimeout :: "scrollPort \<Rightarrow> error + scrollPort" where
  "redrawTimeout this = redraw (this\<lparr>timeouts_redraw := None\<rparr>)"

text \<open>
  The host's event loop takes the oldest pending callback and runs it. The
  scheduler is idle when no timer handle is stored and nothing is pending.
\<close>

definition runNextTask :: "scrollPort \<Rightarrow> error + scrollPort" where
  "runNextTask this =
     (case pendingTasks this of
        [] \<Rightarrow> Inr this
      | RedrawTask # rest \<Rightarrow> redrawTimeout (this\<lparr>pendingTasks := rest\<rparr>))"

definition idle :: "scrollPort \<Rightarrow> bool" where
  "idle this = (timeouts_redraw this = None \<and> pendingTasks this = [])"

text \<open>The children strictly between the top fold and the bottom fold.\<close>

definition betweenFolds :: "slot list \<Rightarrow> slot list" where
  "betweenFolds xs = takeWhile (\<lambda>n. n \<noteq> BottomFold) (tl (dropWhile (\<lambda>n. n \<noteq> TopFold) xs))"

section \<open>Copy events\<close>



section \<open>Construction\<close>

text \<open>
  The constructor, followed by \<^verbatim>\<open>decorate\<close> up to the call of \<^verbatim>\<open>resize\<close>: the two
  folds are the only children of \<^verbatim>\<open>rowNodes_\<close>, nothing is scrolled, nothing is
  selected. \<^verbatim>\<open>visibleRowCount\<close> and the margins are undefined until the first
  \<^verbatim>\<open>syncRowNodesDimensions_\<close>; they start at 0 here. The client size of the
  screen is given.
\<close>

definition newScrollPort :: "rowProvider \<Rightarrow> size \<Rightarrow> scrollPort" where
  "newScrollPort provider clientSize =
     \<lparr>rowProvider = provider,
      characterSize = \<lparr>width = 10, height = 10\<rparr>,
      selection = \<lparr>startRow = None, endRow = None, isMultiline = None, isCollapsed = None\<rparr>,
      currentRowNodeCache = None,
      previousRowNodeCache = Some Map.empty,
      lastScreenWidth = None,
      lastScreenHeight = None,
      lastRowCount = 0,
      scrollWheelMultiplier = 1,
      lastTouch = Map.empty,
      isScrolledEnd = True,
      currentScrollbarWidthPx = 16,
      timeouts_redraw = None,
      ariaHiddenSelectionRows = [],
      visibleRowCount = 0,
      visibleRowTopMargin = 0,
      visibleRowBottomMargin = 0,
      rowNodes = [TopFold, BottomFold],
      topSelectBagText = [],
      bottomSelectBagText = [],
      scrollTop = 0,
      screenClientSize = clientSize,
      scrollAreaHeight = 0,
      documentSelection = None,
      accessibilityEnabled = False,
      pendingTasks = []\<rparr>"

text \<open>
  The geometry fields hold what \<^verbatim>\<open>syncRowNodesDimensions_\<close> computes from the
  current screen and cell size.
\<close>

definition geometrySynced :: "scrollPort \<Rightarrow> bool" where
  "geometrySynced this =
     (visibleRowCount this = visibleRowCount (syncRowNodesDimensions this) \<and>
      visibleRowTopMargin this = visibleRowTopMargin (syncRowNodesDimensions this) \<and>
      visibleRowBottomMargin this = visibleRowBottomMargin (syncRowNodesDimensions this))"

text \<open>A provider of \<open>n\<close> rows whose node for index \<open>i\<close> has identity \<open>i\<close>.\<close>

definition plainProvider :: "int \<Rightarrow> rowProvider" where
  "plainProvider n =
     \<lparr>getRowCount = n,
      getRowNode = (\<lambda>i. if 0 \<le> i \<and> i < n then Some (XRow i i) else None),
      getRowsText = (\<lambda>first final. [])\<rparr>"



section \<open>Example states\<close>

text \<open>
  Example states: a provider of 1000 rows, cells of 8 by 16 pixels, a screen of
  816 pixels across (16 of them the scroll bar) and 400 or 410 pixels down, after
  \<^verbatim>\<open>syncRowNodesDimensions_\<close>. Both show 25 rows; the second leaves a bottom
  margin of 10 pixels.
\<close>

definition port400 :: scrollPort where
  "port400 = syncRowNodesDimensions
     ((newScrollPort (plainProvider 1000) \<lparr>width = 816, height = 400\<rparr>)
        \<lparr>characterSize := \<lparr>width = 8, height = 16\<rparr>\<rparr>)"

definition port410 :: scrollPort where
  "port410 = syncRowNodesDimensions
     ((newScrollPort (plainProvider 1000) \<lparr>width = 816, height = 410\<rparr>)
        \<lparr>characterSize := \<lparr>width = 8, height = 16\<rparr>\<rparr>)"

text \<open>
  A screen 484.046875 pixels high over cells whose height is the double written
  \<^verbatim>\<open>9.6809375\<close>, after \<^verbatim>\<open>syncRowNodesDimensions_\<close>.
\<close>

definition portFractional :: scrollPort where
  "portFractional = syncRowNodesDimensions
     ((newScrollPort (plainProvider 1000) \<lparr>width = 816, height = 484 + 3 / 64\<rparr>)
        \<lparr>characterSize := \<lparr>width = 8, height = fl (96809375 / 10000000)\<rparr>\<rparr>)"



section \<open>Well-formedness and invariants\<close>

text \<open>
  A row provider is well behaved when the node it returns for an index carries
  that index; a cache is, when every entry is stored under the index of its node
  (\<^verbatim>\<open>cacheRowNode_\<close> stores no other).
\<close>

definition providerOk :: "rowProvider \<Rightarrow> bool" where
  "providerOk p = (\<forall>i r. getRowNode p i = Some r \<longrightarrow> rowIndex r = i)"

definition cacheOk :: "(int \<rightharpoonup> row) option \<Rightarrow> bool" where
  "cacheOk c = (case c of None \<Rightarrow> True
                | Some m \<Rightarrow> \<forall>i r. m i = Some r \<longrightarrow> rowIndex r = i)"

text \<open>Two states that differ in the children and in the current cache at most.\<close>

definition sameFrame :: "scrollPort \<Rightarrow> scrollPort \<Rightarrow> bool" where
  "sameFrame this this' =
     (\<exists>xs c. this' = this\<lparr>rowNodes := xs, currentRowNodeCache := c\<rparr>)"

text \<open>A pass is under way and its cache is well formed so far.\<close>

definition curOk :: "scrollPort \<Rightarrow> bool" where
  "curOk this = (currentRowNodeCache this \<noteq> None \<and> cacheOk (currentRowNodeCache this))"

text \<open>
  The invariant of the loop of \<^verbatim>\<open>drawVisibleRows_\<close> after \<open>drawCount\<close> turns: the
  children are distinct, the rows \<open>topRowIndex, \<dots>, topRowIndex + drawCount - 1\<close>
  follow the top fold, and the node under examination is the next child.
\<close>

definition windowInv :: "int \<Rightarrow> int \<Rightarrow> scrollPort \<Rightarrow> slot option \<Rightarrow> bool" where
  "windowInv topRowIndex drawCount this node =
     (distinct (rowNodes this) \<and> curOk this \<and>
      (\<exists>A P S. rowNodes this = A @ TopFold # P @ S \<and>
         map slotRowIndex P = map Some [topRowIndex..topRowIndex + drawCount - 1] \<and>
         node = firstChild S))"

text \<open>
  A selection from row 2 to row 2000 in a document of 3000 rows, over a window
  of 25 rows that starts at row 500 (offset 8000 with cells 16 pixels high).
  The children hold stale rows around the two selection rows.
\<close>

definition textIn :: "int \<Rightarrow> int \<Rightarrow> pnode" where
  "textIn k r =
     PNode k ''#text'' 0 []
       (Some (PNode r ''X-ROW'' r [Tree k []] (Some (PNode 0 ''DIV'' 0 [] None))))"

definition selection2to2000 :: domSelection where
  "selection2to2000 =
     \<lparr>anchorNode = Some (textIn 70002 2), anchorOffset = 1,
      focusNode = Some (textIn 72000 2000), focusOffset = 3,
      sel_isCollapsed = False\<rparr>"

definition portPinned :: scrollPort where
  "portPinned =
     (syncScrollHeight (port400\<lparr>rowProvider := plainProvider 3000\<rparr>))
       \<lparr>scrollTop := 8000,
        documentSelection := Some selection2to2000,
        rowNodes := [Row (XRow 1 1), Row (XRow 2 2), Row (XRow 3 3), TopFold,
                     Row (XRow 4 4), Row (XRow 501 501), Row (XRow 2000 2000),
                     Row (XRow 2001 2001), BottomFold]\<rparr>"

text \<open>
  The same state over a provider that has no node for the rows from 510 on,
  with no selection and the children of an earlier pass.
\<close>

definition portMissing :: scrollPort where
  "portMissing =
     portPinned
       \<lparr>rowProvider := (plainProvider 3000)
          \<lparr>getRowNode := (\<lambda>i. if 0 \<le> i \<and> i < 510 then Some (XRow i i) else None)\<rparr>,
        documentSelection := None,
        rowNodes := [TopFold, Row (XRow 499 499), Row (XRow 500 500),
                     Row (XRow 2001 2001), BottomFold]\<rparr>"





text \<open>
  The invariant of the loop of \<^verbatim>\<open>drawVisibleRows_\<close> when the selection rows \<open>s\<close>
  and \<open>e\<close> are pinned outside the window: \<open>s\<close> is the only child before the top
  fold and \<open>e\<close> the only one after the bottom fold.
\<close>

definition pinnedInv :: "row \<Rightarrow> row \<Rightarrow> int \<Rightarrow> int \<Rightarrow> scrollPort \<Rightarrow> slot option \<Rightarrow> bool" where
  "pinnedInv s e topRowIndex drawCount this node =
     (distinct (rowNodes this) \<and> curOk this \<and>
      (\<exists>P S. rowNodes this = Row s # TopFold # P @ S @ [BottomFold, Row e] \<and>
         map slotRowIndex P = map Some [topRowIndex..topRowIndex + drawCount - 1] \<and>
         node = firstChild (S @ [BottomFold, Row e])))"

section \<open>Rounding to double precision\<close>

lemma pow2_powi: "pow2 e = 2 powi e"
  by (simp add: pow2_def power_int_def inverse_eq_divide power_one_over)

lemma pow2_pos [simp]: "0 < pow2 e"
  by (simp add: pow2_def)

lemma pow2_neq0 [simp]: "pow2 e \<noteq> 0"
  by (simp add: pow2_def)

lemma pow2_nonneg [simp]: "0 \<le> pow2 e"
  by (simp add: pow2_def)

lemma pow2_abs [simp]: "\<bar>pow2 e\<bar> = pow2 e"
  by (rule abs_of_pos) simp

lemma pow2_add: "pow2 (a + b) = pow2 a * pow2 b"
  by (simp add: pow2_powi power_int_add)

lemma pow2_diff: "pow2 (a - b) = pow2 a / pow2 b"
  by (simp add: pow2_powi power_int_diff)

lemma pow2_strict_mono: "a < b \<Longrightarrow> pow2 a < pow2 b"
  unfolding pow2_powi by (rule power_int_strict_increasing) simp_all

lemma pow2_mono: "a \<le> b \<Longrightarrow> pow2 a \<le> pow2 b"
  unfolding pow2_powi by (rule power_int_increasing) simp_all

lemma pow2_less_iff: "pow2 a < pow2 b \<longleftrightarrow> a < b"
  using pow2_strict_mono [of a b] pow2_mono [of b a] by (auto simp: not_less [symmetric])

lemma pow2_le_iff: "pow2 a \<le> pow2 b \<longleftrightarrow> a \<le> b"
  using pow2_strict_mono [of b a] pow2_mono [of a b] by (auto simp: not_le [symmetric])

lemma pow2_one [simp]: "pow2 1 = 2"
  by (simp add: pow2_def)

lemma pow2_zero [simp]: "pow2 0 = 1"
  by (simp add: pow2_def)

lemma pow2_nat: "pow2 (int n) = 2 ^ n"
  by (simp add: pow2_def)

lemma pow2_of_int: "0 \<le> e \<Longrightarrow> pow2 e = of_int (2 ^ nat e)"
  by (simp add: pow2_def)

lemma bitlen_pow2_bounds:
  assumes "0 < p"
  shows "pow2 (bitlen p - 1) \<le> of_int p" "of_int p < pow2 (bitlen p)"
proof -
  have b: "2 ^ nat (bitlen p - 1) \<le> p" "p < 2 ^ nat (bitlen p)"
    using bitlen_bounds [OF assms] by simp_all
  have pos: "0 < bitlen p"
  proof (rule ccontr)
    assume "\<not> 0 < bitlen p"
    then have "nat (bitlen p) = 0" by simp
    then show False using b(2) assms by simp
  qed
  have "(of_int (2 ^ nat (bitlen p - 1)) :: rat) \<le> of_int p"
    using b(1) by (rule of_int_le_iff [THEN iffD2])
  then show "pow2 (bitlen p - 1) \<le> of_int p"
    using pos by (simp add: pow2_def)
  have "(of_int p :: rat) < of_int (2 ^ nat (bitlen p))"
    using b(2) by (rule of_int_less_iff [THEN iffD2])
  then show "of_int p < pow2 (bitlen p)"
    using pos by (simp add: pow2_def)
qed

lemma exponent_bounds:
  assumes "x \<noteq> 0"
  shows "2 ^ 52 \<le> \<bar>x\<bar> / pow2 (exponent x)" "\<bar>x\<bar> / pow2 (exponent x) < 2 ^ 53"
proof -
  obtain p q where pq: "quotient_of \<bar>x\<bar> = (p, q)"
    by (cases "quotient_of \<bar>x\<bar>")
  have q: "0 < q" using pq by (rule quotient_of_denom_pos)
  have x: "\<bar>x\<bar> = of_int p / of_int q" using pq by (rule quotient_of_div)
  have p: "0 < p"
  proof -
    have "0 < of_int p / (of_int q :: rat)" using assms x by simp
    then show ?thesis using q by (simp add: zero_less_divide_iff)
  qed
  define e0 where "e0 = bitlen p - bitlen q - 53"
  have lo: "pow2 (bitlen p - 1) / pow2 (bitlen q) < \<bar>x\<bar>"
  proof -
    have "pow2 (bitlen p - 1) / pow2 (bitlen q) < pow2 (bitlen p - 1) / of_int q"
      using bitlen_pow2_bounds(2) [OF q] q by (simp add: frac_less2)
    also have "\<dots> \<le> of_int p / of_int q"
      using bitlen_pow2_bounds(1) [OF p] q by (simp add: divide_right_mono)
    finally show ?thesis by (simp add: x)
  qed
  have hi: "\<bar>x\<bar> < pow2 (bitlen p) / pow2 (bitlen q - 1)"
  proof -
    have "of_int p / of_int q < pow2 (bitlen p) / (of_int q :: rat)"
      using bitlen_pow2_bounds(2) [OF p] q by (simp add: divide_strict_right_mono)
    also have "\<dots> \<le> pow2 (bitlen p) / pow2 (bitlen q - 1)"
      using bitlen_pow2_bounds(1) [OF q] q
      by (intro divide_left_mono) (simp_all add: less_imp_le)
    finally show ?thesis by (simp add: x)
  qed
  have lo': "pow2 52 < \<bar>x\<bar> / pow2 e0"
  proof -
    have "pow2 52 * pow2 e0 = pow2 (bitlen p - 1) / pow2 (bitlen q)"
      by (simp add: e0_def pow2_add [symmetric] pow2_diff [symmetric] algebra_simps)
    then show ?thesis using lo by (simp add: pos_less_divide_eq)
  qed
  have hi': "\<bar>x\<bar> / pow2 e0 < pow2 54"
  proof -
    have "pow2 54 * pow2 e0 = pow2 (bitlen p) / pow2 (bitlen q - 1)"
      by (simp add: e0_def pow2_add [symmetric] pow2_diff [symmetric] algebra_simps)
    then show ?thesis using hi by (simp add: pos_divide_less_eq)
  qed
  have e: "exponent x = (if \<bar>x\<bar> / pow2 e0 < 2 ^ 53 then e0 else e0 + 1)"
    by (simp add: exponent_def pq e0_def Let_def)
  have half: "\<bar>x\<bar> / pow2 (e0 + 1) = \<bar>x\<bar> / pow2 e0 / 2"
    by (simp add: pow2_add)
  have n52: "pow2 52 = 2 ^ 52" and n54: "pow2 54 = 2 ^ 54"
    by (simp_all add: pow2_def)
  show "2 ^ 52 \<le> \<bar>x\<bar> / pow2 (exponent x)"
    using lo' by (simp add: e half n52)
  show "\<bar>x\<bar> / pow2 (exponent x) < 2 ^ 53"
    using hi' by (simp add: e half n54)
qed


lemma roundHalfEven_of_int [simp]: "roundHalfEven (of_int n) = n"
  by (simp add: roundHalfEven_def)

lemma roundHalfEven_cases:
  "roundHalfEven y = \<lfloor>y\<rfloor> \<and> y - of_int \<lfloor>y\<rfloor> \<le> 1 / 2 \<or>
   roundHalfEven y = \<lfloor>y\<rfloor> + 1 \<and> 1 / 2 \<le> y - of_int \<lfloor>y\<rfloor>"
  by (simp add: roundHalfEven_def Let_def)

lemma roundHalfEven_error: "\<bar>of_int (roundHalfEven y) - y\<bar> \<le> 1 / 2"
proof -
  have "of_int \<lfloor>y\<rfloor> \<le> y" "y < of_int \<lfloor>y\<rfloor> + 1"
    by linarith+
  then show ?thesis
    using roundHalfEven_cases [of y] by auto
qed

lemma roundHalfEven_ge_int:
  assumes "of_int n \<le> y"
  shows "n \<le> roundHalfEven y"
proof -
  have "n \<le> \<lfloor>y\<rfloor>" using assms by (simp add: le_floor_iff)
  then show ?thesis using roundHalfEven_cases [of y] by auto
qed

lemma roundHalfEven_le_int:
  assumes "y \<le> of_int n"
  shows "roundHalfEven y \<le> n"
proof (cases "y = of_int \<lfloor>y\<rfloor>")
  case True
  then have "roundHalfEven y = \<lfloor>y\<rfloor>"
    by (metis roundHalfEven_of_int)
  moreover have "\<lfloor>y\<rfloor> \<le> n" using assms by (simp add: floor_le_iff)
  ultimately show ?thesis by simp
next
  case False
  then have "of_int \<lfloor>y\<rfloor> < y"
    using of_int_floor_le [of y] by (intro order.not_eq_order_implies_strict) auto
  then have "of_int \<lfloor>y\<rfloor> < (of_int n :: rat)" using assms by linarith
  then have "\<lfloor>y\<rfloor> < n" by simp
  then show ?thesis using roundHalfEven_cases [of y] by auto
qed

lemma fl_zero [simp]: "fl 0 = 0"
  by (simp add: fl_def)

lemma fl_error: "\<bar>fl x - x\<bar> \<le> \<bar>x\<bar> / 2 ^ 53"
proof (cases "x = 0")
  case True
  then show ?thesis by simp
next
  case False
  define e where "e = exponent x"
  define y where "y = x / pow2 e"
  have x: "x = y * pow2 e" by (simp add: y_def)
  have "fl x - x = (of_int (roundHalfEven y) - y) * pow2 e"
    using False by (simp add: fl_def y_def e_def algebra_simps)
  then have "\<bar>fl x - x\<bar> = \<bar>of_int (roundHalfEven y) - y\<bar> * pow2 e"
    by (simp add: abs_mult)
  also have "\<dots> \<le> 1 / 2 * pow2 e"
    using roundHalfEven_error [of y] by (intro mult_right_mono) simp_all
  also have "\<dots> \<le> \<bar>x\<bar> / 2 ^ 53"
  proof -
    have "2 ^ 52 * pow2 e \<le> \<bar>x\<bar>"
      using exponent_bounds(1) [OF False] by (simp add: e_def pos_le_divide_eq)
    then show ?thesis by simp
  qed
  finally show ?thesis .
qed

text \<open>Every number \<open>m \<cdot> 2\<^sup>k\<close> with \<open>\<bar>m\<bar> \<le> 2\<^sup>5\<^sup>3\<close> is a double, and rounding leaves it alone.\<close>

lemma fl_double:
  assumes "\<bar>m\<bar> \<le> 2 ^ 53"
  shows "fl (of_int m * pow2 k) = of_int m * pow2 k"
proof (cases "m = 0")
  case True
  then show ?thesis by simp
next
  case False
  define x where "x = of_int m * pow2 k"
  define e where "e = exponent x"
  have nz: "x \<noteq> 0" using False by (simp add: x_def)
  have ax: "\<bar>x\<bar> = of_int \<bar>m\<bar> * pow2 k" by (simp add: x_def abs_mult)
  have "2 ^ 52 * pow2 e \<le> \<bar>x\<bar>"
    using exponent_bounds(1) [OF nz] by (simp add: e_def pos_le_divide_eq)
  also have "\<dots> \<le> 2 ^ 53 * pow2 k"
  proof -
    have "(of_int \<bar>m\<bar> :: rat) \<le> of_int (2 ^ 53)"
      using assms by (rule of_int_le_iff [THEN iffD2])
    then show ?thesis unfolding ax by (intro mult_right_mono) simp_all
  qed
  finally have "pow2 e \<le> pow2 (k + 1)" by (simp add: pow2_add)
  then have ek: "e \<le> k + 1" by (simp add: pow2_le_iff)
  show ?thesis
  proof (cases "e \<le> k")
    case True
    then have "pow2 (k - e) = of_int (2 ^ nat (k - e))" by (simp add: pow2_of_int)
    moreover have "pow2 k = pow2 (k - e) * pow2 e"
      by (simp add: pow2_add [symmetric])
    ultimately have d: "pow2 k = of_int (2 ^ nat (k - e)) * pow2 e" by simp
    have "x / pow2 e = of_int (m * 2 ^ nat (k - e))"
      unfolding x_def d by simp
    then have "roundHalfEven (x / pow2 e) = m * 2 ^ nat (k - e)"
      by (simp only: roundHalfEven_of_int)
    then have "fl x = of_int (m * 2 ^ nat (k - e)) * pow2 e"
      using nz by (simp add: fl_def e_def)
    also have "\<dots> = x" unfolding x_def d by simp
    finally show ?thesis by (simp add: x_def)
  next
    case False
    then have e: "e = k + 1" using ek by simp
    have "\<bar>x\<bar> / pow2 e < 2 ^ 53"
      using exponent_bounds(2) [OF nz] by (simp add: e_def)
    moreover have "2 ^ 52 \<le> \<bar>x\<bar> / pow2 e"
      using exponent_bounds(1) [OF nz] by (simp add: e_def)
    ultimately have "2 ^ 53 \<le> (of_int \<bar>m\<bar> :: rat)"
      by (simp add: ax e pow2_add)
    then have "(of_int (2 ^ 53) :: rat) \<le> of_int \<bar>m\<bar>" by simp
    then have "2 ^ 53 \<le> \<bar>m\<bar>" by (simp only: of_int_le_iff)
    then have m: "\<bar>m\<bar> = 2 ^ 53" using assms by simp
    then have "m = 9007199254740992 \<or> m = - 9007199254740992" by (simp add: abs_if split: if_splits)
    then have "m = 2 * (m div 2)" by auto
    then have "(of_int m :: rat) = of_int (2 * (m div 2))" by simp
    then have m2: "(of_int m :: rat) = 2 * of_int (m div 2)" by simp
    have "x / pow2 e = of_int (m div 2)"
      unfolding x_def e pow2_add m2 by simp
    then have "roundHalfEven (x / pow2 e) = m div 2"
      by (simp only: roundHalfEven_of_int)
    then have "fl x = of_int (m div 2) * pow2 e"
      using nz by (simp add: fl_def e_def)
    also have "\<dots> = x"
      unfolding x_def e pow2_add m2 by simp
    finally show ?thesis by (simp add: x_def)
  qed
qed

lemma fl_of_int: "\<bar>z\<bar> \<le> 2 ^ 53 \<Longrightarrow> fl (of_int z) = of_int z"
  using fl_double [of z 0] by simp

lemma fl_is_double: "\<exists>m. \<bar>m\<bar> \<le> 2 ^ 53 \<and> fl x = of_int m * pow2 (exponent x)"
proof (cases "x = 0")
  case True
  then show ?thesis by (intro exI [of _ 0]) simp
next
  case False
  define y where "y = x / pow2 (exponent x)"
  have ay: "\<bar>y\<bar> < 2 ^ 53"
    using exponent_bounds(2) [OF False] by (simp add: y_def)
  have "y \<le> of_int (2 ^ 53)" using ay by simp
  then have up: "roundHalfEven y \<le> 2 ^ 53" by (rule roundHalfEven_le_int)
  have "of_int (- (2 ^ 53)) \<le> y" using ay by simp
  then have lo: "- (2 ^ 53) \<le> roundHalfEven y" by (rule roundHalfEven_ge_int)
  have "\<bar>roundHalfEven y\<bar> \<le> 2 ^ 53" using up lo by simp
  moreover have "fl x = of_int (roundHalfEven y) * pow2 (exponent x)"
    using False by (simp add: fl_def y_def)
  ultimately show ?thesis by blast
qed

lemma fl_idem [simp]: "fl (fl x) = fl x"
proof -
  obtain m where "\<bar>m\<bar> \<le> 2 ^ 53" "fl x = of_int m * pow2 (exponent x)"
    using fl_is_double by blast
  then show ?thesis using fl_double [of m "exponent x"] by simp
qed

lemma fl_ge_int:
  assumes "of_int n \<le> x" and "\<bar>n\<bar> \<le> 2 ^ 53"
  shows "of_int n \<le> fl x"
proof (cases "x = 0")
  case True
  then show ?thesis using assms by simp
next
  case False
  define e where "e = exponent x"
  define y where "y = x / pow2 e"
  have flx: "fl x = of_int (roundHalfEven y) * pow2 e"
    using False by (simp add: fl_def y_def e_def)
  have x: "x = y * pow2 e" by (simp add: y_def)
  have lo: "2 ^ 52 \<le> \<bar>y\<bar>"
    using exponent_bounds(1) [OF False] by (simp add: y_def e_def)
  show ?thesis
  proof (cases "e \<le> 0")
    case True
    define K where "K = (2 :: int) ^ nat (- e)"
    have K: "pow2 e = 1 / of_int K" using True by (simp add: pow2_def K_def)
    have Kpos: "0 < (of_int K :: rat)" by (simp add: K_def)
    have "of_int n * of_int K \<le> x * of_int K"
      using assms(1) Kpos by (simp only: mult_le_cancel_right_pos)
    then have "of_int (n * K) \<le> y"
      using Kpos by (simp add: y_def K)
    then have "n * K \<le> roundHalfEven y" by (rule roundHalfEven_ge_int)
    then have "(of_int (n * K) :: rat) \<le> of_int (roundHalfEven y)"
      by (simp only: of_int_le_iff)
    then have "of_int n * of_int K \<le> (of_int (roundHalfEven y) :: rat)" by simp
    then have "of_int n \<le> (of_int (roundHalfEven y) :: rat) / of_int K"
      using Kpos by (simp add: pos_le_divide_eq)
    then show ?thesis by (simp add: flx K)
  next
    case False
    then have "1 \<le> e" by simp
    then have "pow2 1 \<le> pow2 e" by (rule pow2_mono)
    then have e2: "2 \<le> pow2 e" by simp
    show ?thesis
    proof (cases "0 < x")
      case True
      then have "0 < y" by (simp add: y_def zero_less_divide_iff)
      then have "of_int (2 ^ 52) \<le> y" using lo by simp
      then have "2 ^ 52 \<le> roundHalfEven y" by (rule roundHalfEven_ge_int)
      then have "(of_int (2 ^ 52) :: rat) \<le> of_int (roundHalfEven y)"
        by (simp only: of_int_le_iff)
      then have r: "2 ^ 52 \<le> (of_int (roundHalfEven y) :: rat)" by simp
      have "2 ^ 52 * 2 \<le> (of_int (roundHalfEven y) :: rat) * pow2 e"
        using r e2 by (intro mult_mono) simp_all
      then have "2 ^ 53 \<le> fl x" by (simp add: flx)
      moreover have "(of_int n :: rat) \<le> of_int (2 ^ 53)"
      proof -
        have "n \<le> 2 ^ 53" using assms(2) by simp
        then show ?thesis by (simp only: of_int_le_iff)
      qed
      ultimately show ?thesis by simp
    next
      case neg: False
      then have xneg: "x < 0" using \<open>x \<noteq> 0\<close> by simp
      then have "y < 0" by (simp add: y_def divide_less_0_iff)
      then have y: "y \<le> - (2 ^ 52)" using lo by simp
      have "y * pow2 e \<le> - (2 ^ 52) * pow2 e"
        using y by (intro mult_right_mono) simp_all
      also have "\<dots> \<le> - (2 ^ 52) * 2"
        using e2 by simp
      finally have "x \<le> - (2 ^ 53)" by (simp add: x)
      moreover have "(of_int (- (2 ^ 53)) :: rat) \<le> of_int n"
      proof -
        have "- (2 ^ 53) \<le> n" using assms(2) by simp
        then show ?thesis by (simp only: of_int_le_iff)
      qed
      ultimately have "x = of_int (- (2 ^ 53))" using assms(1) by simp
      then have "fl x = x" using fl_of_int [of "- (2 ^ 53)"] by simp
      then show ?thesis using assms(1) by simp
    qed
  qed
qed

lemma fl_nonneg: "0 \<le> x \<Longrightarrow> 0 \<le> fl x"
  using fl_ge_int [of 0 x] by simp

lemma fl_error_bounds:
  assumes "0 \<le> x"
  shows "x - x / 2 ^ 53 \<le> fl x" and "fl x \<le> x + x / 2 ^ 53"
proof -
  have "\<bar>fl x - x\<bar> \<le> x / 2 ^ 53"
    using fl_error [of x] assms by (simp only: abs_of_nonneg)
  then show "x - x / 2 ^ 53 \<le> fl x" and "fl x \<le> x + x / 2 ^ 53"
    by linarith+
qed

section \<open>Wheel events\<close>

text \<open>
  C6. In page mode \<^verbatim>\<open>scrollWheelDelta\<close> returns no deltas: for every state and
  every wheel event in page mode the call \<^verbatim>\<open>this.screen_.getWidth()\<close> throws a
  TypeError, where the claim has the deltas scaled by the viewport. The other
  modes are as claimed: a line-mode event with \<open>deltaY = 3\<close> over cells 16 pixels
  high gives \<open>y = -48\<close>.
\<close>

theorem scrollWheelDelta_page_throws:
  "scrollWheelDelta this (e\<lparr>deltaMode := DOM_DELTA_PAGE\<rparr>) = Inl TypeError \<and>
   height (characterSize port400) = 16 \<and>
   scrollWheelDelta port400 \<lparr>deltaMode = DOM_DELTA_LINE, deltaX = 0, deltaY = 3\<rparr> =
     Inr \<lparr>delta_x = 0, delta_y = - 48\<rparr>"
proof -
  have a: "scrollWheelDelta this (e\<lparr>deltaMode := DOM_DELTA_PAGE\<rparr>) = Inl TypeError"
    by (simp add: scrollWheelDelta_def)
  have b: "height (characterSize port400) = 16"
    by code_simp
  have c: "scrollWheelDelta port400 \<lparr>deltaMode = DOM_DELTA_LINE, deltaX = 0, deltaY = 3\<rparr> =
             Inr \<lparr>delta_x = 0, delta_y = - 48\<rparr>"
    by code_simp
  from a b c show ?thesis by simp
qed

section \<open>Touch scrolling\<close>








section \<open>Facts about the children list\<close>

lemma firstChild_simps [simp]:
  "firstChild [] = None" "firstChild (n # xs) = Some n"
  by (simp_all add: firstChild_def)

lemma nextSibling_notin: "n \<notin> set xs \<Longrightarrow> nextSibling xs n = None"
  by (induction xs n rule: nextSibling.induct) auto

lemma nextSibling_Cons:
  "nextSibling (a # xs) n = (if a = n then firstChild xs else nextSibling xs n)"
  by (cases xs) (auto simp: nextSibling_notin)

lemma nextSibling_mid:
  "n \<notin> set L \<Longrightarrow> nextSibling (L @ n # R) n = firstChild R"
  by (induction L) (auto simp: nextSibling_Cons)

lemma remove1_mid:
  "n \<notin> set L \<Longrightarrow> remove1 n (L @ n # R) = L @ R"
  by (induction L) auto

lemma remove1_split:
  assumes "distinct (L @ n # R)" and "new \<noteq> n"
  shows "remove1 new (L @ n # R) = remove1 new L @ n # remove1 new R"
proof (cases "new \<in> set L")
  case True
  with assms have "new \<notin> set R" by auto
  with True assms show ?thesis by (simp add: remove1_append remove1_idem)
next
  case False
  with assms show ?thesis by (simp add: remove1_append remove1_idem)
qed

lemma insertAt_mid:
  "n \<notin> set L \<Longrightarrow> insertAt new n (L @ n # R) = L @ new # n # R"
  by (induction L) auto

lemma insertBefore_mid:
  assumes "distinct (L @ n # R)" and "new \<noteq> n"
  shows "insertBefore (L @ n # R) new (Some n) =
           Inr (remove1 new L @ new # n # remove1 new R)"
proof -
  have "n \<notin> set (remove1 new L)"
    using assms(1) by (auto dest: notin_set_remove1)
  then show ?thesis
    using assms by (simp add: insertBefore_def remove1_split insertAt_mid)
qed

lemma distinct_insert_mid:
  assumes "distinct (L @ n # R)" and "new \<noteq> n"
  shows "distinct (remove1 new L @ new # n # remove1 new R)"
proof -
  have a: "new \<notin> set (remove1 new L)" "new \<notin> set (remove1 new R)"
    using assms(1) by simp_all
  have b: "set (remove1 new L) \<subseteq> set L" "set (remove1 new R) \<subseteq> set R"
    by (rule set_remove1_subset)+
  have c: "distinct (remove1 new L)" "distinct (remove1 new R)"
    using assms(1) by simp_all
  show ?thesis
    using assms a b c by auto
qed

lemma removeUntilNode_hit [simp]: "removeUntilNode xs (Some t) t = Inr xs"
  by (simp add: removeUntilNode.simps [of xs "Some t" t])

lemma removeUntilNode_null [simp]: "removeUntilNode xs None t = Inl DidNotEncounterTarget"
  by (simp add: removeUntilNode.simps [of xs None t])

lemma removeUntilNode_step:
  "d \<noteq> t \<Longrightarrow>
   removeUntilNode xs (Some d) t =
     (if d = BottomFold then Inl EncounteredBottomFold
      else if d \<notin> set xs then Inl TypeError
      else removeUntilNode (remove1 d xs) (nextSibling xs d) t)"
  by (simp add: removeUntilNode.simps [of xs "Some d" t])

lemma removeUntilNode_split:
  assumes "removeUntilNode xs cur t = Inr ys"
    and "xs = L @ S" and "distinct xs" and "cur = firstChild S"
  shows "\<exists>D R. S = D @ t # R \<and> ys = L @ t # R"
  using assms
proof (induction xs cur t arbitrary: S rule: removeUntilNode.induct)
  case (1 xs currentNode targetNode)
  show ?case
  proof (cases "currentNode = Some targetNode")
    case True
    with "1.prems"(4) obtain R where S: "S = targetNode # R"
      by (cases S) auto
    from True "1.prems"(1) have "ys = xs" by simp
    with S "1.prems"(2) show ?thesis by auto
  next
    case False
    from False "1.prems"(1) obtain d where d: "currentNode = Some d"
      by (cases currentNode) auto
    from False d have dt: "d \<noteq> targetNode" by simp
    note unfold = removeUntilNode_step [OF dt]
    from d "1.prems"(4) obtain S' where S: "S = d # S'"
      by (cases S) auto
    from False d "1.prems"(1) have nb: "d \<noteq> BottomFold" and din: "d \<in> set xs"
      by (auto simp: unfold split: if_splits)
    have dL: "d \<notin> set L" using "1.prems"(2,3) S by auto
    have rem: "remove1 d xs = L @ S'"
      using "1.prems"(2) S dL by (simp add: remove1_mid)
    have nxt: "nextSibling xs d = firstChild S'"
      using "1.prems"(2) S dL by (simp add: nextSibling_mid)
    have rec: "removeUntilNode (remove1 d xs) (nextSibling xs d) targetNode = Inr ys"
      using False d nb din "1.prems"(1) by (simp add: unfold)
    have dist: "distinct (remove1 d xs)" using "1.prems"(3) by simp
    from "1.IH" [OF False d nb _ rec rem dist nxt] din
    obtain D R where "S' = D @ targetNode # R" and "ys = L @ targetNode # R"
      by auto
    with S show ?thesis by (intro exI [of _ "d # D"] exI [of _ R]) simp
  qed
qed

section \<open>The loop of drawVisibleRows_\<close>

lemma curOk_rowNodes [simp]: "curOk (this\<lparr>rowNodes := xs\<rparr>) = curOk this"
  by (simp add: curOk_def)

lemma sameFrame_refl: "sameFrame this this"
  unfolding sameFrame_def
  by (rule exI [of _ "rowNodes this"], rule exI [of _ "currentRowNodeCache this"]) simp

lemma sameFrame_trans:
  assumes "sameFrame a b" and "sameFrame b c"
  shows "sameFrame a c"
proof -
  from assms(1) obtain xs ca where b: "b = a\<lparr>rowNodes := xs, currentRowNodeCache := ca\<rparr>"
    unfolding sameFrame_def by blast
  from assms(2) obtain ys cb where c: "c = b\<lparr>rowNodes := ys, currentRowNodeCache := cb\<rparr>"
    unfolding sameFrame_def by blast
  have "c = a\<lparr>rowNodes := ys, currentRowNodeCache := cb\<rparr>"
    unfolding c b by simp
  then show ?thesis unfolding sameFrame_def by blast
qed

lemma sameFrame_rowNodes: "sameFrame this (this\<lparr>rowNodes := xs\<rparr>)"
  unfolding sameFrame_def
  by (rule exI [of _ xs], rule exI [of _ "currentRowNodeCache this"]) simp

lemma sameFrame_fields:
  assumes "sameFrame this this'"
  shows "selection this' = selection this"
    and "rowProvider this' = rowProvider this"
    and "previousRowNodeCache this' = previousRowNodeCache this"
    and "visibleRowCount this' = visibleRowCount this"
    and "scrollTop this' = scrollTop this"
    and "characterSize this' = characterSize this"
    and "timeouts_redraw this' = timeouts_redraw this"
    and "pendingTasks this' = pendingTasks this"
    and "lastRowCount this' = lastRowCount this"
    and "screenClientSize this' = screenClientSize this"
    and "currentScrollbarWidthPx this' = currentScrollbarWidthPx this"
  using assms by (auto simp: sameFrame_def)

lemma fetchRowNode_cached:
  assumes "fetchRowNode this i = Inr (r, this1)"
    and "curOk this"
    and "providerOk (rowProvider this)" and "cacheOk (previousRowNodeCache this)"
  shows "\<exists>rw. r = Some rw \<and> rowIndex rw = i \<and> rowNodes this1 = rowNodes this \<and>
              sameFrame this this1 \<and> curOk this1"
proof -
  from assms(2) obtain cur where cur: "currentRowNodeCache this = Some cur"
    and curok: "\<forall>i r. cur i = Some r \<longrightarrow> rowIndex r = i"
    by (auto simp: curOk_def cacheOk_def)
  let ?node = "case previousRowNodeCache this of
                 None \<Rightarrow> getRowNode (rowProvider this) i
               | Some prev \<Rightarrow> (case prev i of Some cached \<Rightarrow> Some cached
                              | None \<Rightarrow> getRowNode (rowProvider this) i)"
  from assms(1) cur obtain rw where rw: "?node = Some rw"
    and r: "r = Some rw"
    and this1: "this1 = this\<lparr>currentRowNodeCache := Some (cur(rowIndex rw \<mapsto> rw))\<rparr>"
    by (cases ?node) (auto simp: fetchRowNode_def Let_def)
  have idx: "rowIndex rw = i"
    using rw assms(3,4)
    by (auto simp: providerOk_def cacheOk_def split: option.splits)
  have frame: "sameFrame this this1"
    unfolding sameFrame_def this1
    by (rule exI [of _ "rowNodes this"], rule exI) simp
  have "curOk this1"
    unfolding this1 using curok by (simp add: curOk_def cacheOk_def)
  then show ?thesis using r idx this1 frame by simp
qed

lemma fetchOrBreak_cases:
  assumes "fetchOrBreak this i node k = Inr res"
    and "curOk this"
    and "providerOk (rowProvider this)" and "cacheOk (previousRowNodeCache this)"
  obtains rw this1 where "rowIndex rw = i" and "rowNodes this1 = rowNodes this"
    and "sameFrame this this1" and "curOk this1"
    and "k rw this1 = Inr res"
proof -
  from assms(1) obtain r this1 where f: "fetchRowNode this i = Inr (r, this1)"
    by (cases "fetchRowNode this i") (auto simp: fetchOrBreak_def)
  from fetchRowNode_cached [OF f assms(2,3,4)] obtain rw where
    rw: "r = Some rw" "rowIndex rw = i" "rowNodes this1 = rowNodes this"
    "sameFrame this this1" "curOk this1"
    by blast
  from assms(1) f rw(1) have "k rw this1 = Inr res" by (simp add: fetchOrBreak_def)
  with rw that show thesis by blast
qed

lemma window_extend:
  assumes "map slotRowIndex P = map Some [t..t + dc - 1]" and "0 \<le> dc"
    and "slotRowIndex n = Some (t + dc)"
  shows "map slotRowIndex (P @ [n]) = map Some [t..t + (dc + 1) - 1]"
proof -
  have "[t..t + dc] = [t..t + dc - 1] @ [t + dc]"
    using assms(2) upto_rec2 [of t "t + dc"] by simp
  then show ?thesis using assms(1,3) by simp
qed

lemma window_fresh:
  assumes "map slotRowIndex P = map Some [t..t + dc - 1]"
    and "slotRowIndex n = Some (t + dc)"
  shows "n \<notin> set P"
proof
  assume "n \<in> set P"
  then have "slotRowIndex n \<in> set (map slotRowIndex P)" by simp
  then have "Some (t + dc) \<in> set (map Some [t..t + dc - 1])"
    using assms by simp
  then show False by auto
qed

lemma window_rows:
  assumes "map slotRowIndex P = map Some [t..t + dc - 1]"
  shows "TopFold \<notin> set P \<and> BottomFold \<notin> set P"
proof -
  have "\<And>n. n \<in> set P \<Longrightarrow> slotRowIndex n \<noteq> None"
  proof -
    fix n assume "n \<in> set P"
    then have "slotRowIndex n \<in> set (map slotRowIndex P)" by simp
    then show "slotRowIndex n \<noteq> None" unfolding assms by auto
  qed
  then show ?thesis by fastforce
qed

lemma insert_into_window:
  assumes "distinct (A @ TopFold # P @ n # R)" and "Row r \<notin> set P" and "Row r \<noteq> n"
  shows "insertBefore (A @ TopFold # P @ n # R) (Row r) (Some n) =
           Inr (remove1 (Row r) A @ TopFold # (P @ [Row r]) @ n # remove1 (Row r) R)"
    and "distinct (remove1 (Row r) A @ TopFold # (P @ [Row r]) @ n # remove1 (Row r) R)"
proof -
  let ?L = "A @ TopFold # P"
  have d: "distinct (?L @ n # R)" using assms(1) by simp
  have rem: "remove1 (Row r) ?L = remove1 (Row r) A @ TopFold # P"
    using assms(2) by (simp add: remove1_append remove1_idem)
  from insertBefore_mid [OF d assms(3)] rem
  show "insertBefore (A @ TopFold # P @ n # R) (Row r) (Some n) =
           Inr (remove1 (Row r) A @ TopFold # (P @ [Row r]) @ n # remove1 (Row r) R)"
    by simp
  from distinct_insert_mid [OF d assms(3)] rem
  show "distinct (remove1 (Row r) A @ TopFold # (P @ [Row r]) @ n # remove1 (Row r) R)"
    by simp
qed

lemma windowInv_insert:
  assumes dist: "distinct (rowNodes this)" and xs: "rowNodes this = A @ TopFold # P @ n # R"
    and win: "map slotRowIndex P = map Some [t..t + dc - 1]" and dc: "0 \<le> dc"
    and idx: "rowIndex rw = t + dc" and neq: "Row rw \<noteq> n"
    and this1: "rowNodes this1 = rowNodes this" "curOk this1"
    and ins: "insertBefore (rowNodes this1) (Row rw) (Some n) = Inr ys"
  shows "windowInv t (dc + 1) (this1\<lparr>rowNodes := ys\<rparr>) (Some n)"
    and "ys = remove1 (Row rw) A @ TopFold # (P @ [Row rw]) @ n # remove1 (Row rw) R"
proof -
  have fresh: "Row rw \<notin> set P"
    by (rule window_fresh [OF win]) (simp add: idx)
  have d: "distinct (A @ TopFold # P @ n # R)" using dist xs by simp
  from insert_into_window(1) [OF d fresh neq] ins this1(1) xs
  show ys: "ys = remove1 (Row rw) A @ TopFold # (P @ [Row rw]) @ n # remove1 (Row rw) R"
    by simp
  have dys: "distinct ys"
    unfolding ys by (rule insert_into_window(2) [OF d fresh neq])
  have "slotRowIndex (Row rw) = Some (t + dc)" using idx by simp
  from window_extend [OF win dc this]
  have w: "map slotRowIndex (P @ [Row rw]) = map Some [t..t + (dc + 1) - 1]" .
  have "\<exists>A' P' S'. ys = A' @ TopFold # P' @ S' \<and>
          map slotRowIndex P' = map Some [t..t + (dc + 1) - 1] \<and> Some n = firstChild S'"
    by (rule exI [of _ "remove1 (Row rw) A"], rule exI [of _ "P @ [Row rw]"],
        rule exI [of _ "n # remove1 (Row rw) R"]) (simp add: ys w del: map_append)
  then show "windowInv t (dc + 1) (this1\<lparr>rowNodes := ys\<rparr>) (Some n)"
    unfolding windowInv_def using dys this1(2) by simp
qed

lemma windowInv_remove:
  assumes dist: "distinct (rowNodes this)" and xs: "rowNodes this = A @ TopFold # P @ S"
    and win: "map slotRowIndex P = map Some [t..t + dc - 1]" and dc: "0 \<le> dc"
    and idx: "slotRowIndex target = Some (t + dc)"
    and cur: "curOk this"
    and rem: "removeUntilNode (rowNodes this) (firstChild S) target = Inr ys"
  shows "windowInv t (dc + 1) (this\<lparr>rowNodes := ys\<rparr>) (nextSibling ys target)"
proof -
  have xs': "rowNodes this = (A @ TopFold # P) @ S" using xs by simp
  from removeUntilNode_split [OF rem xs' dist refl]
  obtain D R where S: "S = D @ target # R" and ys: "ys = (A @ TopFold # P) @ target # R"
    by blast
  have dys: "distinct ys" using dist xs S ys by auto
  then have "target \<notin> set (A @ TopFold # P)" using ys by auto
  then have nxt: "nextSibling ys target = firstChild R"
    unfolding ys by (rule nextSibling_mid)
  have w: "map slotRowIndex (P @ [target]) = map Some [t..t + (dc + 1) - 1]"
    using window_extend [OF win dc idx] .
  have "\<exists>A' P' S'. ys = A' @ TopFold # P' @ S' \<and>
          map slotRowIndex P' = map Some [t..t + (dc + 1) - 1] \<and>
          firstChild R = firstChild S'"
    by (rule exI [of _ A], rule exI [of _ "P @ [target]"], rule exI [of _ R])
       (simp add: ys w del: map_append)
  then show ?thesis
    unfolding windowInv_def nxt using dys cur by simp
qed

lemma windowInv_keep:
  assumes dist: "distinct (rowNodes this)" and xs: "rowNodes this = A @ TopFold # P @ n # R"
    and win: "map slotRowIndex P = map Some [t..t + dc - 1]" and dc: "0 \<le> dc"
    and idx: "slotRowIndex n = Some (t + dc)"
    and cur: "curOk this"
  shows "windowInv t (dc + 1) this (nextSibling (rowNodes this) n)"
proof -
  have "n \<notin> set (A @ TopFold # P)" using dist xs by auto
  then have "nextSibling ((A @ TopFold # P) @ n # R) n = firstChild R"
    by (rule nextSibling_mid)
  then have nxt: "nextSibling (rowNodes this) n = firstChild R" using xs by simp
  have w: "map slotRowIndex (P @ [n]) = map Some [t..t + (dc + 1) - 1]"
    using window_extend [OF win dc idx] .
  have "\<exists>A' P' S'. rowNodes this = A' @ TopFold # P' @ S' \<and>
          map slotRowIndex P' = map Some [t..t + (dc + 1) - 1] \<and>
          firstChild R = firstChild S'"
    by (rule exI [of _ A], rule exI [of _ "P @ [n]"], rule exI [of _ R])
       (simp add: xs w del: map_append)
  then show ?thesis unfolding windowInv_def nxt using dist cur by simp
qed

lemma windowInv_replace:
  assumes dist: "distinct (rowNodes this)" and xs: "rowNodes this = A @ TopFold # P @ n # R"
    and win: "map slotRowIndex P = map Some [t..t + dc - 1]" and dc: "0 \<le> dc"
    and idx: "rowIndex rw = t + dc" and neq: "Row rw \<noteq> n"
    and this1: "rowNodes this1 = rowNodes this" "curOk this1"
    and ins: "insertBefore (rowNodes this1) (Row rw) (Some n) = Inr ys"
    and rem: "removeChild ys n = Inr zs"
  shows "windowInv t (dc + 1) (this1\<lparr>rowNodes := zs\<rparr>) (nextSibling zs (Row rw))"
proof -
  let ?A = "remove1 (Row rw) A" and ?R = "remove1 (Row rw) R"
  from windowInv_insert [OF dist xs win dc idx neq this1 ins]
  have inv: "windowInv t (dc + 1) (this1\<lparr>rowNodes := ys\<rparr>) (Some n)"
    and ys: "ys = ?A @ TopFold # (P @ [Row rw]) @ n # ?R" by simp_all
  from inv have dys: "distinct ys" by (simp add: windowInv_def)
  have ys': "ys = (?A @ TopFold # P @ [Row rw]) @ n # ?R" using ys by simp
  have nin: "n \<notin> set (?A @ TopFold # P @ [Row rw])" using dys ys' by auto
  have "remove1 n ((?A @ TopFold # P @ [Row rw]) @ n # ?R) =
          (?A @ TopFold # P @ [Row rw]) @ ?R"
    using nin by (rule remove1_mid)
  moreover have "zs = remove1 n ys"
    using rem by (simp add: removeChild_def split: if_splits)
  ultimately have zs: "zs = (?A @ TopFold # P) @ Row rw # ?R"
    unfolding ys' by simp
  have dzs: "distinct zs"
    using dys rem by (auto simp: removeChild_def split: if_splits)
  then have "Row rw \<notin> set (?A @ TopFold # P)" unfolding zs by auto
  then have nxt: "nextSibling zs (Row rw) = firstChild ?R"
    unfolding zs by (rule nextSibling_mid)
  have "slotRowIndex (Row rw) = Some (t + dc)" using idx by simp
  from window_extend [OF win dc this]
  have w: "map slotRowIndex (P @ [Row rw]) = map Some [t..t + (dc + 1) - 1]" .
  have "\<exists>A' P' S'. zs = A' @ TopFold # P' @ S' \<and>
          map slotRowIndex P' = map Some [t..t + (dc + 1) - 1] \<and>
          firstChild ?R = firstChild S'"
    by (rule exI [of _ ?A], rule exI [of _ "P @ [Row rw]"], rule exI [of _ ?R])
       (simp add: zs w del: map_append)
  then show ?thesis unfolding windowInv_def nxt using dzs this1(2) by simp
qed

lemma drawStep_inv:
  assumes inv: "windowInv t dc this node" and dc: "0 \<le> dc"
    and prov: "providerOk (rowProvider this)" and cache: "cacheOk (previousRowNodeCache this)"
    and step: "drawStep this (t + dc) node = Inr (turn, this', node')"
  shows "turn = Continue \<and> windowInv t (dc + 1) this' node' \<and> sameFrame this this'"
proof -
  from inv obtain A P S where dist: "distinct (rowNodes this)"
    and cur: "curOk this"
    and xs: "rowNodes this = A @ TopFold # P @ S"
    and win: "map slotRowIndex P = map Some [t..t + dc - 1]"
    and node: "node = firstChild S"
    unfolding windowInv_def by blast
  let ?i = "t + dc"
  let ?ins = "\<lambda>newNode this1.
       andThen (insertBefore (rowNodes this1) (Row newNode) node)
         (\<lambda>xs. Inr (Continue, this1\<lparr>rowNodes := xs\<rparr>, node))"
  have inserted: "turn = Continue \<and> windowInv t (dc + 1) this' node' \<and> sameFrame this this'"
    if fb: "fetchOrBreak this ?i node ?ins = Inr (turn, this', node')"
      and n: "node = Some n" and nidx: "slotRowIndex n \<noteq> Some ?i" for n
  proof -
    from n node obtain R where S: "S = n # R" by (cases S) auto
    from fetchOrBreak_cases [OF fb cur prov cache] obtain rw this1 where
      rw: "rowIndex rw = ?i" and same: "rowNodes this1 = rowNodes this"
      and fr: "sameFrame this this1" and cur1: "curOk this1"
      and k: "?ins rw this1 = Inr (turn, this', node')"
      by blast
    from k n obtain ys where ins: "insertBefore (rowNodes this1) (Row rw) (Some n) = Inr ys"
      and res: "turn = Continue" "this' = this1\<lparr>rowNodes := ys\<rparr>" "node' = Some n"
      by (cases "insertBefore (rowNodes this1) (Row rw) (Some n)") auto
    have neq: "Row rw \<noteq> n" using nidx rw by auto
    have xs': "rowNodes this = A @ TopFold # P @ n # R" using xs S by simp
    from windowInv_insert(1) [OF dist xs' win dc rw neq same cur1 ins]
    have "windowInv t (dc + 1) this' node'" unfolding res .
    moreover have "sameFrame this this'"
      unfolding res using sameFrame_trans [OF fr sameFrame_rowNodes] .
    ultimately show ?thesis using res(1) by simp
  qed
  show ?thesis
  proof (cases node)
    case None
    with step show ?thesis by (simp add: drawStep_def Let_def)
  next
    case (Some n)
    with node obtain R where S: "S = n # R" by (cases S) auto
    have xs': "rowNodes this = A @ TopFold # P @ n # R" using xs S by simp
    consider (bottom) "n = BottomFold"
      | (keep) "n \<noteq> BottomFold" "slotRowIndex n = Some ?i"
      | (atStart) "n \<noteq> BottomFold" "slotRowIndex n \<noteq> Some ?i"
          "(case startRow (selection this) of None \<Rightarrow> False | Some s \<Rightarrow> rowIndex s = ?i)"
      | (atEnd) "n \<noteq> BottomFold" "slotRowIndex n \<noteq> Some ?i"
          "\<not> (case startRow (selection this) of None \<Rightarrow> False | Some s \<Rightarrow> rowIndex s = ?i)"
          "(case endRow (selection this) of None \<Rightarrow> False | Some e \<Rightarrow> rowIndex e = ?i)"
      | (pinned) "n \<noteq> BottomFold" "slotRowIndex n \<noteq> Some ?i"
          "\<not> (case startRow (selection this) of None \<Rightarrow> False | Some s \<Rightarrow> rowIndex s = ?i)"
          "\<not> (case endRow (selection this) of None \<Rightarrow> False | Some e \<Rightarrow> rowIndex e = ?i)"
          "node = map_option Row (startRow (selection this)) \<or>
           node = map_option Row (endRow (selection this))"
      | (replace) "n \<noteq> BottomFold" "slotRowIndex n \<noteq> Some ?i"
          "\<not> (case startRow (selection this) of None \<Rightarrow> False | Some s \<Rightarrow> rowIndex s = ?i)"
          "\<not> (case endRow (selection this) of None \<Rightarrow> False | Some e \<Rightarrow> rowIndex e = ?i)"
          "\<not> (node = map_option Row (startRow (selection this)) \<or>
              node = map_option Row (endRow (selection this)))"
      by blast
    then show ?thesis
    proof cases
      case bottom
      with step Some have "fetchOrBreak this ?i node ?ins = Inr (turn, this', node')"
        by (simp add: drawStep_def Let_def)
      from inserted [OF this Some] bottom show ?thesis by simp
    next
      case keep
      with step Some have res: "turn = Continue" "this' = this"
        "node' = nextSibling (rowNodes this) n"
        by (auto simp: drawStep_def Let_def)
      from windowInv_keep [OF dist xs' win dc keep(2) cur]
      show ?thesis unfolding res using sameFrame_refl by simp
    next
      case atStart
      from atStart(3) obtain s where s: "startRow (selection this) = Some s" "rowIndex s = ?i"
        by (cases "startRow (selection this)") auto
      with atStart step Some have
        "andThen (removeUntilNode (rowNodes this) node (Row s))
           (\<lambda>xs. Inr (Continue, this\<lparr>rowNodes := xs\<rparr>, nextSibling xs (Row s))) =
         Inr (turn, this', node')"
        by (simp add: drawStep_def Let_def)
      then obtain ys where rem: "removeUntilNode (rowNodes this) node (Row s) = Inr ys"
        and res: "turn = Continue" "this' = this\<lparr>rowNodes := ys\<rparr>"
          "node' = nextSibling ys (Row s)"
        by (cases "removeUntilNode (rowNodes this) node (Row s)") auto
      have idx: "slotRowIndex (Row s) = Some ?i" using s(2) by simp
      from windowInv_remove [OF dist xs win dc idx cur rem [unfolded node]]
      show ?thesis unfolding res using sameFrame_rowNodes by simp
    next
      case atEnd
      from atEnd(4) obtain e where e: "endRow (selection this) = Some e" "rowIndex e = ?i"
        by (cases "endRow (selection this)") auto
      with atEnd step Some have
        "andThen (removeUntilNode (rowNodes this) node (Row e))
           (\<lambda>xs. Inr (Continue, this\<lparr>rowNodes := xs\<rparr>, nextSibling xs (Row e))) =
         Inr (turn, this', node')"
        by (simp add: drawStep_def Let_def)
      then obtain ys where rem: "removeUntilNode (rowNodes this) node (Row e) = Inr ys"
        and res: "turn = Continue" "this' = this\<lparr>rowNodes := ys\<rparr>"
          "node' = nextSibling ys (Row e)"
        by (cases "removeUntilNode (rowNodes this) node (Row e)") auto
      have idx: "slotRowIndex (Row e) = Some ?i" using e(2) by simp
      from windowInv_remove [OF dist xs win dc idx cur rem [unfolded node]]
      show ?thesis unfolding res using sameFrame_rowNodes by simp
    next
      case pinned
      with step Some have "fetchOrBreak this ?i node ?ins = Inr (turn, this', node')"
        by (simp add: drawStep_def Let_def)
      from inserted [OF this Some pinned(2)] show ?thesis .
    next
      case replace
      let ?rep = "\<lambda>newNode this1.
           if n = Row newNode then Inr (Continue, this1, nextSibling (rowNodes this1) n)
           else andThen (insertBefore (rowNodes this1) (Row newNode) (Some n))
                  (\<lambda>xs. andThen (removeChild xs n)
                     (\<lambda>xs1. Inr (Continue, this1\<lparr>rowNodes := xs1\<rparr>,
                                  nextSibling xs1 (Row newNode))))"
      from replace step Some
      have "fetchOrBreak this ?i (Some n) ?rep = Inr (turn, this', node')"
        by (simp add: drawStep_def Let_def)
      then have fb: "fetchOrBreak this ?i node ?rep = Inr (turn, this', node')"
        using Some by simp
      from fetchOrBreak_cases [OF fb cur prov cache] obtain rw this1 where
        rw: "rowIndex rw = ?i" and same: "rowNodes this1 = rowNodes this"
        and fr: "sameFrame this this1" and cur1: "curOk this1"
        and k: "?rep rw this1 = Inr (turn, this', node')"
        by blast
      have neq: "Row rw \<noteq> n" using replace(2) rw by auto
      from k neq Some obtain ys zs where
        ins: "insertBefore (rowNodes this1) (Row rw) (Some n) = Inr ys"
        and rem: "removeChild ys n = Inr zs"
        and res: "turn = Continue" "this' = this1\<lparr>rowNodes := zs\<rparr>"
          "node' = nextSibling zs (Row rw)"
        by (cases "insertBefore (rowNodes this1) (Row rw) (Some n)";
            cases "removeChild (projr (insertBefore (rowNodes this1) (Row rw) (Some n))) n")
           auto
      from windowInv_replace [OF dist xs' win dc rw neq same cur1 ins rem]
      have "windowInv t (dc + 1) this' node'" unfolding res .
      moreover have "sameFrame this this'"
        unfolding res using sameFrame_trans [OF fr sameFrame_rowNodes] .
      ultimately show ?thesis using res(1) by simp
    qed
  qed
qed

lemma drawLoop_inv:
  assumes "drawLoop this t target dc node = Inr (this', node')"
    and "windowInv t dc this node" and "0 \<le> dc" and "dc \<le> target"
    and "providerOk (rowProvider this)" and "cacheOk (previousRowNodeCache this)"
  shows "windowInv t target this' node' \<and> sameFrame this this'"
  using assms
proof (induction this t target dc node rule: drawLoop.induct)
  case (1 this t target dc node)
  show ?case
  proof (cases "dc < target")
    case False
    with "1.prems"(4) have "dc = target" by simp
    moreover from False "1.prems"(1) have "this' = this" "node' = node"
      by (simp_all add: drawLoop.simps [of this t target dc node])
    ultimately show ?thesis using "1.prems"(2) sameFrame_refl by simp
  next
    case True
    from True "1.prems"(1) obtain turn this1 node1 where
      step: "drawStep this (t + dc) node = Inr (turn, this1, node1)"
      by (cases "drawStep this (t + dc) node")
         (auto simp: drawLoop.simps [of this t target dc node])
    from drawStep_inv [OF "1.prems"(2,3,5,6) step]
    have turn: "turn = Continue" and inv1: "windowInv t (dc + 1) this1 node1"
      and fr: "sameFrame this this1" by simp_all
    from True "1.prems"(1) step turn
    have rec: "drawLoop this1 t target (dc + 1) node1 = Inr (this', node')"
      by (simp add: drawLoop.simps [of this t target dc node])
    have p: "providerOk (rowProvider this1)" "cacheOk (previousRowNodeCache this1)"
      using "1.prems"(5,6) sameFrame_fields [OF fr] by simp_all
    from "1.IH" [OF True step refl, of this1 node1] turn rec inv1 "1.prems"(3) True p
    have "windowInv t target this' node' \<and> sameFrame this1 this'" by simp
    with fr show ?thesis using sameFrame_trans by blast
  qed
qed

lemma betweenFolds_shape:
  assumes "TopFold \<notin> set A" and "BottomFold \<notin> set P"
  shows "betweenFolds (A @ TopFold # P @ BottomFold # R) = P"
proof -
  have "dropWhile (\<lambda>n. n \<noteq> TopFold) (A @ TopFold # P @ BottomFold # R) =
          TopFold # P @ BottomFold # R"
    using assms(1) by (subst dropWhile_append2) auto
  moreover have "takeWhile (\<lambda>n. n \<noteq> BottomFold) (P @ BottomFold # R) = P"
    using assms(2) by (subst takeWhile_append2) auto
  ultimately show ?thesis by (simp add: betweenFolds_def)
qed

lemma windowInv_finish:
  assumes inv: "windowInv t dc this node"
    and fin: "(if node \<noteq> Some BottomFold
               then andThen (removeUntilNode (rowNodes this) node BottomFold)
                      (\<lambda>xs. Inr (this\<lparr>rowNodes := xs\<rparr>))
               else Inr this) = Inr this'"
  shows "map slotRowIndex (betweenFolds (rowNodes this')) = map Some [t..t + dc - 1] \<and>
         sameFrame this this' \<and> distinct (rowNodes this') \<and> curOk this'"
proof -
  from inv obtain A P S where dist: "distinct (rowNodes this)" and cur: "curOk this"
    and xs: "rowNodes this = (A @ TopFold # P) @ S"
    and win: "map slotRowIndex P = map Some [t..t + dc - 1]"
    and node: "node = firstChild S"
    unfolding windowInv_def by auto
  have "\<exists>R. rowNodes this' = (A @ TopFold # P) @ BottomFold # R \<and>
             distinct (rowNodes this') \<and> sameFrame this this' \<and> curOk this'"
  proof (cases "node = Some BottomFold")
    case True
    with node obtain R where "S = BottomFold # R" by (cases S) auto
    moreover from True fin have "this' = this" by simp
    ultimately show ?thesis using xs dist cur sameFrame_refl by auto
  next
    case False
    with fin obtain ys where rem: "removeUntilNode (rowNodes this) node BottomFold = Inr ys"
      and res: "this' = this\<lparr>rowNodes := ys\<rparr>"
      by (cases "removeUntilNode (rowNodes this) node BottomFold") auto
    from removeUntilNode_split [OF rem xs dist node]
    obtain D R where S: "S = D @ BottomFold # R" and ys: "ys = (A @ TopFold # P) @ BottomFold # R"
      by blast
    have "distinct ys" using dist xs S ys by auto
    then show ?thesis using ys res cur sameFrame_rowNodes by auto
  qed
  then obtain R where fin_xs: "rowNodes this' = A @ TopFold # P @ BottomFold # R"
    and d: "distinct (rowNodes this')" and fr: "sameFrame this this'"
    and cur': "curOk this'"
    by auto
  have "TopFold \<notin> set A" using d fin_xs by auto
  moreover have "BottomFold \<notin> set P" using window_rows [OF win] by simp
  ultimately have "betweenFolds (rowNodes this') = P"
    unfolding fin_xs by (rule betweenFolds_shape)
  then show ?thesis using win d fr cur' by simp
qed

lemma drawLoop_done:
  "\<not> dc < target \<Longrightarrow> drawLoop this t target dc node = Inr (this, node)"
  by (simp add: drawLoop.simps [of this t target dc node])

lemma drawLoop_null:
  assumes "drawLoop this t target dc None = Inr (this1, node1)"
  shows "this1 = this \<and> node1 = None"
proof (cases "dc < target")
  case True
  have "drawStep this (t + dc) None = Inl TypeError"
    by (simp add: drawStep_def Let_def)
  with True assms show ?thesis
    by (simp add: drawLoop.simps [of this t target dc None])
next
  case False
  from drawLoop_done [OF False] assms show ?thesis by simp
qed

lemma drawVisibleRows_window:
  assumes draw: "drawVisibleRows this t b = Inr this'"
    and dist: "distinct (rowNodes this)" and cur: "curOk this"
    and prov: "providerOk (rowProvider this)" and cache: "cacheOk (previousRowNodeCache this)"
  shows "map slotRowIndex (betweenFolds (rowNodes this')) =
           map Some [t..t + min (visibleRowCount this) (getRowCount (rowProvider this)) - 1] \<and>
         sameFrame this this' \<and> distinct (rowNodes this') \<and> curOk this'"
proof -
  let ?target = "min (visibleRowCount this) (getRowCount (rowProvider this))"
  let ?node = "nextSibling (rowNodes this) TopFold"
  from draw obtain this1 node1 where
    loop: "drawLoop this t ?target 0 ?node = Inr (this1, node1)"
    and fin: "(if node1 \<noteq> Some BottomFold
               then andThen (removeUntilNode (rowNodes this1) node1 BottomFold)
                      (\<lambda>xs. Inr (this1\<lparr>rowNodes := xs\<rparr>))
               else Inr this1) = Inr this'"
    by (cases "drawLoop this t ?target 0 ?node") (auto simp: drawVisibleRows_def Let_def)
  have top: "TopFold \<in> set (rowNodes this)"
  proof (rule ccontr)
    assume "TopFold \<notin> set (rowNodes this)"
    then have none: "?node = None" by (rule nextSibling_notin)
    from loop have "this1 = this \<and> node1 = None"
      unfolding none by (rule drawLoop_null)
    with fin show False by simp
  qed
  then obtain A S where xs: "rowNodes this = A @ TopFold # S" and A: "TopFold \<notin> set A"
    by (auto dest: split_list_first)
  have node: "?node = firstChild S" unfolding xs using A by (rule nextSibling_mid)
  have "\<exists>A' P' S'. rowNodes this = A' @ TopFold # P' @ S' \<and>
          map slotRowIndex P' = map Some [t..t + 0 - 1] \<and> firstChild S = firstChild S'"
    by (rule exI [of _ A], rule exI [of _ "[]"], rule exI [of _ S]) (simp add: xs)
  then have inv0: "windowInv t 0 this ?node"
    unfolding windowInv_def node using dist cur by simp
  have "\<exists>dc. windowInv t dc this1 node1 \<and> [t..t + dc - 1] = [t..t + ?target - 1] \<and>
             sameFrame this this1"
  proof (cases "0 \<le> ?target")
    case True
    from drawLoop_inv [OF loop inv0 _ True prov cache] show ?thesis by auto
  next
    case False
    then have "\<not> 0 < ?target" by linarith
    from drawLoop_done [OF this, of this t ?node] loop
    have "this1 = this" "node1 = ?node"
      by auto
    moreover have "t + ?target - 1 < t" using False by linarith
    then have "[t..t + 0 - 1] = [t..t + ?target - 1]" by (simp only: upto_empty)
    ultimately show ?thesis using inv0 sameFrame_refl by blast
  qed
  then obtain dc where inv1: "windowInv t dc this1 node1"
    and eq: "[t..t + dc - 1] = [t..t + ?target - 1]" and fr: "sameFrame this this1"
    by blast
  from windowInv_finish [OF inv1 fin] eq fr show ?thesis
    using sameFrame_trans by auto
qed

section \<open>Fold placement keeps the children distinct\<close>

lemma andThen_Inr:
  "andThen m f = Inr y \<longleftrightarrow> (\<exists>v. m = Inr v \<and> f v = Inr y)"
  by (cases m) auto

lemma set_insertAt: "set (insertAt new r xs) \<subseteq> insert new (set xs)"
  by (induction xs) auto

lemma distinct_insertAt:
  "distinct xs \<Longrightarrow> new \<notin> set xs \<Longrightarrow> distinct (insertAt new r xs)"
proof (induction xs)
  case Nil
  then show ?case by simp
next
  case (Cons a xs)
  have "a \<notin> set (insertAt new r xs)"
    using Cons.prems set_insertAt [of new r xs] by auto
  with Cons show ?case by auto
qed

lemma distinct_insertBefore:
  assumes "distinct xs" and "insertBefore xs new ref = Inr ys"
  shows "distinct ys"
proof (cases ref)
  case None
  with assms show ?thesis by (auto simp: insertBefore_def)
next
  case (Some r)
  have "distinct (insertAt new r (remove1 new xs))"
    using assms(1) by (intro distinct_insertAt) simp_all
  with Some assms show ?thesis
    by (auto simp: insertBefore_def split: if_splits)
qed

lemma distinct_trimIntermediate:
  "distinct xs \<Longrightarrow> trimIntermediate xs s e = Inr ys \<Longrightarrow> distinct ys"
proof (induction xs s e rule: trimIntermediate.induct)
  case (1 xs s e)
  note unfold = trimIntermediate.simps [of xs s e]
  from "1.prems"(2) obtain n where n: "nextSibling xs s = Some n"
    by (cases "nextSibling xs s") (auto simp: unfold)
  show ?case
  proof (cases "n = e")
    case True
    with n "1.prems" show ?thesis by (simp add: unfold)
  next
    case False
    with n "1.prems"(2) have "trimIntermediate (remove1 n xs) s e = Inr ys"
      by (simp add: unfold)
    moreover have "distinct (remove1 n xs)" using "1.prems"(1) by simp
    ultimately show ?thesis using "1.IH" [OF n False] by simp
  qed
qed

lemma distinct_removeLeading:
  "distinct xs \<Longrightarrow> removeLeading xs s = Inr ys \<Longrightarrow> distinct ys"
  by (induction xs s rule: removeLeading.induct) (auto split: if_splits)

lemma distinct_removeTrailing:
  "distinct xs \<Longrightarrow> removeTrailing xs e = Inr ys \<Longrightarrow> distinct ys"
proof (induction xs e rule: removeTrailing.induct)
  case (1 xs e)
  show ?case
  proof (cases "xs = [] \<or> last xs = e")
    case True
    with "1.prems" show ?thesis
      by (auto simp: removeTrailing.simps [of xs e] split: if_splits)
  next
    case False
    with "1.prems"(2) have "removeTrailing (butlast xs) e = Inr ys"
      by (simp add: removeTrailing.simps [of xs e])
    moreover have "distinct (butlast xs)" using "1.prems"(1) by (rule distinct_butlast)
    ultimately show ?thesis using "1.IH" False by simp
  qed
qed

lemma distinct_appendChild: "distinct xs \<Longrightarrow> distinct (appendChild xs new)"
  by (simp add: appendChild_def)

lemma andThen_distinct:
  assumes "andThen m f = Inr ys"
    and "\<And>v. m = Inr v \<Longrightarrow> distinct v"
    and "\<And>v w. distinct v \<Longrightarrow> f v = Inr w \<Longrightarrow> distinct w"
  shows "distinct ys"
  using assms by (cases m) auto

lemma distinct_drawTopFoldNodes:
  assumes d: "distinct xs" and res: "drawTopFoldNodes sel t xs = Inr ys"
  shows "distinct ys"
proof -
  let ?first = "if firstChild xs \<noteq> Some TopFold
                then insertBefore xs TopFold (firstChild xs) else Inr xs"
  let ?after = "\<lambda>r. if nextSibling xs (Row r) \<noteq> Some TopFold
                then insertBefore xs TopFold (nextSibling xs (Row r)) else Inr xs"
  have first: "distinct zs" if "?first = Inr zs" for zs
    using that d distinct_insertBefore by (auto split: if_splits)
  have after: "distinct zs" if "?after r = Inr zs" for r zs
    using that d distinct_insertBefore by (auto split: if_splits)
  have single: "distinct ys"
    if "andThen (?after s) (\<lambda>xs1. removeLeading xs1 (Row s)) = Inr ys" for s
    by (rule andThen_distinct [OF that]) (auto intro: after distinct_removeLeading)
  have both: "distinct ys"
    if "andThen (andThen (?after e) (\<lambda>xs1. trimIntermediate xs1 (Row s) (Row e)))
          (\<lambda>xs2. removeLeading xs2 (Row s)) = Inr ys" for s e
  proof (rule andThen_distinct [OF that])
    fix v assume "andThen (?after e) (\<lambda>xs1. trimIntermediate xs1 (Row s) (Row e)) = Inr v"
    then show "distinct v"
      by (rule andThen_distinct) (auto intro: after distinct_trimIntermediate)
  qed (auto intro: distinct_removeLeading)
  show ?thesis
  proof (cases "startRow sel")
    case None
    with res have "?first = Inr ys" by (simp add: drawTopFoldNodes_def)
    then show ?thesis by (rule first)
  next
    case (Some s)
    show ?thesis
    proof (cases "rowIndex s \<ge> t")
      case True
      with Some res have "?first = Inr ys" by (simp add: drawTopFoldNodes_def)
      then show ?thesis by (rule first)
    next
      case below: False
      show ?thesis
      proof (cases "isMultiline sel \<noteq> Some True")
        case True
        with Some below res
        have "andThen (?after s) (\<lambda>xs1. removeLeading xs1 (Row s)) = Inr ys"
          by (simp add: drawTopFoldNodes_def)
        then show ?thesis by (rule single)
      next
        case multi: False
        from multi Some below res obtain e where e: "endRow sel = Some e"
          by (cases "endRow sel") (auto simp: drawTopFoldNodes_def)
        show ?thesis
        proof (cases "rowIndex e \<ge> t")
          case True
          with multi Some below e res
          have "andThen (?after s) (\<lambda>xs1. removeLeading xs1 (Row s)) = Inr ys"
            by (simp add: drawTopFoldNodes_def)
          then show ?thesis by (rule single)
        next
          case False
          with multi Some below e res
          have "andThen (andThen (?after e) (\<lambda>xs1. trimIntermediate xs1 (Row s) (Row e)))
                  (\<lambda>xs2. removeLeading xs2 (Row s)) = Inr ys"
            by (simp add: drawTopFoldNodes_def)
          then show ?thesis by (rule both)
        qed
      qed
    qed
  qed
qed


lemma distinct_drawBottomFoldNodes:
  assumes d: "distinct xs" and res: "drawBottomFoldNodes sel t xs = Inr ys"
  shows "distinct ys"
proof -
  let ?first = "if lastChild xs \<noteq> Some BottomFold
                then Inr (appendChild xs BottomFold) else Inr xs"
  let ?after = "\<lambda>r. if nextSibling xs BottomFold \<noteq> Some (Row r)
                then insertBefore xs BottomFold (Some (Row r)) else Inr xs"
  have first: "distinct zs" if "?first = Inr zs" for zs
    using that d distinct_appendChild by (auto split: if_splits)
  have after: "distinct zs" if "?after r = Inr zs" for r zs
    using that d distinct_insertBefore by (auto split: if_splits)
  have single: "distinct ys"
    if "andThen (?after e) (\<lambda>xs1. removeTrailing xs1 (Row e)) = Inr ys" for e
    by (rule andThen_distinct [OF that]) (auto intro: after distinct_removeTrailing)
  have both: "distinct ys"
    if "andThen (andThen (?after s) (\<lambda>xs1. trimIntermediate xs1 (Row s) (Row e)))
          (\<lambda>xs2. removeTrailing xs2 (Row e)) = Inr ys" for s e
  proof (rule andThen_distinct [OF that])
    fix v assume "andThen (?after s) (\<lambda>xs1. trimIntermediate xs1 (Row s) (Row e)) = Inr v"
    then show "distinct v"
      by (rule andThen_distinct) (auto intro: after distinct_trimIntermediate)
  qed (auto intro: distinct_removeTrailing)
  show ?thesis
  proof (cases "endRow sel")
    case None
    with res have "?first = Inr ys"
        by (auto simp: drawBottomFoldNodes_def split: if_splits)
    then show ?thesis by (rule first)
  next
    case (Some e)
    show ?thesis
    proof (cases "rowIndex e \<le> t")
      case True
      with Some res have "?first = Inr ys"
        by (auto simp: drawBottomFoldNodes_def split: if_splits)
      then show ?thesis by (rule first)
    next
      case below: False
      show ?thesis
      proof (cases "isMultiline sel \<noteq> Some True")
        case True
        with Some below res
        have "andThen (?after e) (\<lambda>xs1. removeTrailing xs1 (Row e)) = Inr ys"
          by (simp add: drawBottomFoldNodes_def)
        then show ?thesis by (rule single)
      next
        case multi: False
        from multi Some below res obtain s where e: "startRow sel = Some s"
          by (cases "startRow sel") (auto simp: drawBottomFoldNodes_def)
        show ?thesis
        proof (cases "rowIndex s \<le> t")
          case True
          with multi Some below e res
          have "andThen (?after e) (\<lambda>xs1. removeTrailing xs1 (Row e)) = Inr ys"
            by (simp add: drawBottomFoldNodes_def)
          then show ?thesis by (rule single)
        next
          case False
          with multi Some below e res
          have "andThen (andThen (?after s) (\<lambda>xs1. trimIntermediate xs1 (Row s) (Row e)))
                  (\<lambda>xs2. removeTrailing xs2 (Row e)) = Inr ys"
            by (simp add: drawBottomFoldNodes_def)
          then show ?thesis by (rule both)
        qed
      qed
    qed
  qed
qed

section \<open>The reconciliation pass as a whole\<close>

lemma resetSelectBags_nodes:
  "distinct (rowNodes this) \<Longrightarrow> distinct (rowNodes (resetSelectBags this))"
  by (simp add: resetSelectBags_def Let_def)

lemma resetSelectBags_fields:
  "rowProvider (resetSelectBags this) = rowProvider this"
  "previousRowNodeCache (resetSelectBags this) = previousRowNodeCache this"
  "scrollTop (resetSelectBags this) = scrollTop this"
  "characterSize (resetSelectBags this) = characterSize this"
  "visibleRowCount (resetSelectBags this) = visibleRowCount this"
  "visibleRowTopMargin (resetSelectBags this) = visibleRowTopMargin this"
  "visibleRowBottomMargin (resetSelectBags this) = visibleRowBottomMargin this"
  "documentSelection (resetSelectBags this) = documentSelection this"
  "accessibilityEnabled (resetSelectBags this) = accessibilityEnabled this"
  "timeouts_redraw (resetSelectBags this) = timeouts_redraw this"
  "pendingTasks (resetSelectBags this) = pendingTasks this"
  "screenClientSize (resetSelectBags this) = screenClientSize this"
  "currentScrollbarWidthPx (resetSelectBags this) = currentScrollbarWidthPx this"
  by (simp_all add: resetSelectBags_def Let_def)

lemma sync_frame:
  assumes "sync this = Inr this1"
  shows "\<exists>sel. selectionSync (documentSelection this) (accessibilityEnabled this) = Inr sel \<and>
               this1 = this\<lparr>selection := sel\<rparr>"
  using assms
  by (cases "selectionSync (documentSelection this) (accessibilityEnabled this)")
     (auto simp: sync_def)

lemma drawTopFold_frame:
  assumes "drawTopFold this t = Inr this1"
  shows "\<exists>ys. drawTopFoldNodes (selection this) t (rowNodes this) = Inr ys \<and>
              this1 = this\<lparr>rowNodes := ys\<rparr>"
  using assms
  by (cases "drawTopFoldNodes (selection this) t (rowNodes this)")
     (auto simp: drawTopFold_def)

lemma drawBottomFold_frame:
  assumes "drawBottomFold this b = Inr this1"
  shows "\<exists>ys. drawBottomFoldNodes (selection this) b (rowNodes this) = Inr ys \<and>
              this1 = this\<lparr>rowNodes := ys\<rparr>"
  using assms
  by (cases "drawBottomFoldNodes (selection this) b (rowNodes this)")
     (auto simp: drawBottomFold_def)

text \<open>
  A pass, with the top and bottom row index given: it completes, or fails, as
  the fold placement followed by the window fill does.
\<close>

lemma redraw_completes:
  assumes "sync (resetSelectBags this0) = Inr this1"
    and "this2 = (syncScrollHeight this1)\<lparr>currentRowNodeCache := Some Map.empty\<rparr>"
    and "getTopRowIndex this2 = t"
    and "getBottomRowIndex this2 t = b"
    and "andThen (drawTopFold this2 t) (\<lambda>this3.
           andThen (drawBottomFold this3 b) (\<lambda>this4. drawVisibleRows this4 t b)) = Inr this5"
  shows "\<exists>this'. redraw this0 = Inr this'"
proof -
  obtain this3 where a: "drawTopFold this2 t = Inr this3"
    using assms(5) by (cases "drawTopFold this2 t") auto
  obtain this4 where b: "drawBottomFold this3 b = Inr this4"
    using assms(5) a by (cases "drawBottomFold this3 b") auto
  have c: "drawVisibleRows this4 t b = Inr this5"
    using assms(5) a b by simp
  show ?thesis
    unfolding redraw_def assms(1) andThen.simps Let_def assms(2) [symmetric] assms(3) assms(4)
      a b c
    by blast
qed

lemma redraw_fails:
  assumes "sync (resetSelectBags this0) = Inr this1"
    and "this2 = (syncScrollHeight this1)\<lparr>currentRowNodeCache := Some Map.empty\<rparr>"
    and "getTopRowIndex this2 = t"
    and "getBottomRowIndex this2 t = b"
    and "andThen (drawTopFold this2 t) (\<lambda>this3.
           andThen (drawBottomFold this3 b) (\<lambda>this4. drawVisibleRows this4 t b)) = Inl err"
  shows "redraw this0 = Inl err"
proof (cases "drawTopFold this2 t")
  case (Inl e)
  then show ?thesis
    using assms(5)
    unfolding redraw_def assms(1) andThen.simps Let_def assms(2) [symmetric] assms(3) assms(4)
    by simp
next
  case a: (Inr this3)
  show ?thesis
  proof (cases "drawBottomFold this3 b")
    case (Inl e)
    then show ?thesis
      using assms(5) a
      unfolding redraw_def assms(1) andThen.simps Let_def assms(2) [symmetric] assms(3) assms(4)
      by simp
  next
    case b: (Inr this4)
    have c: "drawVisibleRows this4 t b = Inl err"
      using assms(5) a b by simp
    show ?thesis
      unfolding redraw_def assms(1) andThen.simps Let_def assms(2) [symmetric] assms(3) assms(4)
        a b c
      by simp
  qed
qed

lemma redraw_steps:
  assumes "redraw this0 = Inr this'"
  obtains this1 this3 this4 this5 where
    "sync (resetSelectBags this0) = Inr this1"
    and "drawTopFold ((syncScrollHeight this1)\<lparr>currentRowNodeCache := Some Map.empty\<rparr>)
           (getTopRowIndex this1) = Inr this3"
    and "drawBottomFold this3 (getBottomRowIndex this1 (getTopRowIndex this1)) = Inr this4"
    and "drawVisibleRows this4 (getTopRowIndex this1)
           (getBottomRowIndex this1 (getTopRowIndex this1)) = Inr this5"
    and "rowNodes this' = rowNodes this5"
    and "scrollTop this' = scrollTop this5"
    and "characterSize this' = characterSize this5"
    and "timeouts_redraw this' = timeouts_redraw this5"
    and "pendingTasks this' = pendingTasks this5"
    and "selection this' = selection this5"
    and "rowProvider this' = rowProvider this5"
    and "previousRowNodeCache this' = currentRowNodeCache this5"
proof -
  let ?this2 = "\<lambda>this1. (syncScrollHeight this1)\<lparr>currentRowNodeCache := Some Map.empty\<rparr>"
  have top: "getTopRowIndex (?this2 this1) = getTopRowIndex this1" for this1
    by (simp add: getTopRowIndex_def syncScrollHeight_def Let_def)
  have bot: "getBottomRowIndex (?this2 this1) t = getBottomRowIndex this1 t" for this1 t
    by (simp add: getBottomRowIndex_def syncScrollHeight_def Let_def)
  from assms obtain this1 where s1: "sync (resetSelectBags this0) = Inr this1"
    by (cases "sync (resetSelectBags this0)") (auto simp: redraw_def)
  let ?t = "getTopRowIndex this1" and ?b = "getBottomRowIndex this1 (getTopRowIndex this1)"
  from assms s1 obtain this3 where s3: "drawTopFold (?this2 this1) ?t = Inr this3"
    by (cases "drawTopFold (?this2 this1) ?t") (auto simp: redraw_def Let_def top bot)
  from assms s1 s3 obtain this4 where s4: "drawBottomFold this3 ?b = Inr this4"
    by (cases "drawBottomFold this3 ?b") (auto simp: redraw_def Let_def top bot)
  from assms s1 s3 s4 obtain this5 where s5: "drawVisibleRows this4 ?t ?b = Inr this5"
    by (cases "drawVisibleRows this4 ?t ?b") (auto simp: redraw_def Let_def top bot)
  from assms s1 s3 s4 s5
  have fin: "this' =
     (let this6 = syncRowNodesDimensions (ariaHideOffscreenSelectionRows this5 ?t ?b);
          this7 = this6\<lparr>previousRowNodeCache := currentRowNodeCache this6,
                        currentRowNodeCache := None\<rparr>
      in this7\<lparr>isScrolledEnd :=
            (getTopRowIndex this7 + visibleRowCount this7 \<ge> lastRowCount this7)\<rparr>)"
    by (simp add: redraw_def Let_def top bot)
  show thesis
    by (rule that [OF s1 s3 s4 s5])
       (simp_all add: fin Let_def syncRowNodesDimensions_def
         ariaHideOffscreenSelectionRows_def getScreenSize_def)
qed

lemma redraw_window_aux:
  assumes pass: "redraw this = Inr this'"
    and dist: "distinct (rowNodes this)"
    and prov: "providerOk (rowProvider this)"
    and cache: "cacheOk (previousRowNodeCache this)"
  shows "map slotRowIndex (betweenFolds (rowNodes this')) =
           map Some [getTopRowIndex this..
                     getTopRowIndex this +
                       min (visibleRowCount this) (getRowCount (rowProvider this)) - 1] \<and>
         getTopRowIndex this' = getTopRowIndex this \<and>
         distinct (rowNodes this') \<and>
         cacheOk (previousRowNodeCache this') \<and> rowProvider this' = rowProvider this"
proof (rule redraw_steps [OF pass])
  fix this1 this3 this4 this5
  assume s1: "sync (resetSelectBags this) = Inr this1"
    and s3: "drawTopFold ((syncScrollHeight this1)\<lparr>currentRowNodeCache := Some Map.empty\<rparr>)
               (getTopRowIndex this1) = Inr this3"
    and s4: "drawBottomFold this3 (getBottomRowIndex this1 (getTopRowIndex this1)) = Inr this4"
    and s5: "drawVisibleRows this4 (getTopRowIndex this1)
               (getBottomRowIndex this1 (getTopRowIndex this1)) = Inr this5"
    and fin: "rowNodes this' = rowNodes this5" "scrollTop this' = scrollTop this5"
      "characterSize this' = characterSize this5" "rowProvider this' = rowProvider this5"
      "previousRowNodeCache this' = currentRowNodeCache this5"
  let ?this2 = "(syncScrollHeight this1)\<lparr>currentRowNodeCache := Some Map.empty\<rparr>"
  from sync_frame [OF s1] obtain sel where this1: "this1 = (resetSelectBags this)\<lparr>selection := sel\<rparr>"
    by blast
  have f1: "rowProvider this1 = rowProvider this"
    "previousRowNodeCache this1 = previousRowNodeCache this"
    "scrollTop this1 = scrollTop this" "characterSize this1 = characterSize this"
    "visibleRowCount this1 = visibleRowCount this"
    "rowNodes this1 = rowNodes (resetSelectBags this)"
    unfolding this1 by (simp_all add: resetSelectBags_fields)
  have f2: "rowProvider ?this2 = rowProvider this"
    "previousRowNodeCache ?this2 = previousRowNodeCache this"
    "scrollTop ?this2 = scrollTop this" "characterSize ?this2 = characterSize this"
    "visibleRowCount ?this2 = visibleRowCount this"
    "rowNodes ?this2 = rowNodes (resetSelectBags this)"
    "curOk ?this2"
    using f1 by (simp_all add: syncScrollHeight_def Let_def curOk_def cacheOk_def)
  have top: "getTopRowIndex this1 = getTopRowIndex this"
    using f1 by (simp add: getTopRowIndex_def)
  from drawTopFold_frame [OF s3] obtain ys where
    ys: "drawTopFoldNodes (selection ?this2) (getTopRowIndex this1) (rowNodes ?this2) = Inr ys"
    and this3: "this3 = ?this2\<lparr>rowNodes := ys\<rparr>" by blast
  have d2: "distinct (rowNodes ?this2)"
    unfolding f2 using dist by (rule resetSelectBags_nodes)
  have d3: "distinct (rowNodes this3)"
    unfolding this3 using distinct_drawTopFoldNodes [OF d2 ys] by simp
  from drawBottomFold_frame [OF s4] obtain zs where
    zs: "drawBottomFoldNodes (selection this3)
           (getBottomRowIndex this1 (getTopRowIndex this1)) (rowNodes this3) = Inr zs"
    and this4: "this4 = this3\<lparr>rowNodes := zs\<rparr>" by blast
  have d4: "distinct (rowNodes this4)"
    unfolding this4 using distinct_drawBottomFoldNodes [OF d3 zs] by simp
  have f4: "rowProvider this4 = rowProvider this"
    "previousRowNodeCache this4 = previousRowNodeCache this"
    "scrollTop this4 = scrollTop this" "characterSize this4 = characterSize this"
    "visibleRowCount this4 = visibleRowCount this"
    "curOk this4"
    unfolding this4 this3 using f2 by (simp_all add: curOk_def)
  from drawVisibleRows_window [OF s5 d4 f4(6)] prov cache f4
  have win: "map slotRowIndex (betweenFolds (rowNodes this5)) =
               map Some [getTopRowIndex this1..
                  getTopRowIndex this1 +
                    min (visibleRowCount this) (getRowCount (rowProvider this)) - 1]"
    and fr: "sameFrame this4 this5" and d5: "distinct (rowNodes this5)"
    and c5: "curOk this5"
    by simp_all
  have f5: "rowProvider this5 = rowProvider this" "scrollTop this5 = scrollTop this"
    "characterSize this5 = characterSize this"
    using sameFrame_fields [OF fr] f4 by simp_all
  have "getTopRowIndex this' = getTopRowIndex this"
    using fin f5 by (simp add: getTopRowIndex_def)
  then show "map slotRowIndex (betweenFolds (rowNodes this')) =
           map Some [getTopRowIndex this..
                     getTopRowIndex this +
                       min (visibleRowCount this) (getRowCount (rowProvider this)) - 1] \<and>
         getTopRowIndex this' = getTopRowIndex this \<and>
         distinct (rowNodes this') \<and>
         cacheOk (previousRowNodeCache this') \<and> rowProvider this' = rowProvider this"
    using win top fin d5 f5 c5 by (simp add: curOk_def)
qed

text \<open>
  C1. After a completed pass of \<^verbatim>\<open>redraw_\<close> over distinct children, with a row
  provider and a previous cache that hand out the node of the index they are
  asked for, the children strictly between the two folds are the rows
  \<open>topRowIndex, \<dots>, topRowIndex + min(visibleRowCount, rowCount) - 1\<close> in this
  order, each index once. (A pass in which the provider fails to supply a node
  does not complete.) The visible row count is the one the pass ran with.
\<close>

theorem redraw_window:
  assumes "redraw this = Inr this'"
    and "distinct (rowNodes this)"
    and "providerOk (rowProvider this)"
    and "cacheOk (previousRowNodeCache this)"
  shows "map slotRowIndex (betweenFolds (rowNodes this')) =
           map Some [getTopRowIndex this'..
                     getTopRowIndex this' +
                       min (visibleRowCount this) (getRowCount (rowProvider this)) - 1] \<and>
         distinct (map slotRowIndex (betweenFolds (rowNodes this'))) \<and>
         getTopRowIndex this' = getTopRowIndex this"
proof -
  from redraw_window_aux [OF assms]
  have eq: "map slotRowIndex (betweenFolds (rowNodes this')) =
           map Some [getTopRowIndex this'..
                     getTopRowIndex this' +
                       min (visibleRowCount this) (getRowCount (rowProvider this)) - 1]"
    and top: "getTopRowIndex this' = getTopRowIndex this"
    by simp_all
  have "distinct (map Some [getTopRowIndex this'..
                     getTopRowIndex this' +
                       min (visibleRowCount this) (getRowCount (rowProvider this)) - 1])"
    by (simp add: distinct_map)
  with eq top show ?thesis by simp
qed

text \<open>
  A pass over the example with stale rows and a selection from row 2 to row
  2000 completes and leaves the rows 500 to 524 between the folds.
\<close>

theorem redraw_window_witness:
  "\<exists>this'. redraw portPinned = Inr this' \<and>
     map slotRowIndex (betweenFolds (rowNodes this')) = map Some [500..524]"
proof -
  let ?s = "sync (resetSelectBags portPinned)"
  let ?this2 = "(syncScrollHeight (projr ?s))\<lparr>currentRowNodeCache := Some Map.empty\<rparr>"
  let ?draw = "andThen (drawTopFold ?this2 500) (\<lambda>this3.
                 andThen (drawBottomFold this3 524) (\<lambda>this4. drawVisibleRows this4 500 524))"
  have "\<not> isl ?s" by code_simp
  then have s: "?s = Inr (projr ?s)" by (cases ?s) auto
  have t2: "getTopRowIndex ?this2 = 500" by code_simp
  have b2: "getBottomRowIndex ?this2 500 = 524" by code_simp
  have "\<not> isl ?draw" by code_simp
  then obtain this5 where d5: "?draw = Inr this5" by (cases ?draw) auto
  from redraw_completes [OF s refl t2 b2 d5]
  obtain this' where pass: "redraw portPinned = Inr this'" by blast
  have d: "distinct (rowNodes portPinned)" by code_simp
  have rp: "rowProvider portPinned = plainProvider 3000"
    by (simp add: portPinned_def syncScrollHeight_def Let_def)
  have p: "providerOk (rowProvider portPinned)"
    unfolding rp by (simp add: providerOk_def plainProvider_def)
  have "previousRowNodeCache portPinned = Some Map.empty"
    by (simp add: portPinned_def syncScrollHeight_def Let_def port400_def
        syncRowNodesDimensions_def newScrollPort_def)
  then have c: "cacheOk (previousRowNodeCache portPinned)"
    by (simp add: cacheOk_def)
  have t: "getTopRowIndex portPinned = 500" by code_simp
  have v: "visibleRowCount portPinned = 25" by code_simp
  have n: "getRowCount (rowProvider portPinned) = 3000"
    unfolding rp by (simp add: plainProvider_def)
  from redraw_window [OF pass d p c]
  have "map slotRowIndex (betweenFolds (rowNodes this')) = map Some [500..524]"
    unfolding t v n by simp
  with pass show ?thesis by blast
qed

text \<open>
  C4 does not hold of the pass: \<^verbatim>\<open>redraw_\<close> creates the current cache before it
  draws, so \<^verbatim>\<open>fetchRowNode_\<close> hands the missing node to \<^verbatim>\<open>cacheRowNode_\<close>, which
  reads its \<^verbatim>\<open>rowIndex\<close> and throws before the loop can test the node and
  \<^verbatim>\<open>break\<close>. With rows 500 to 509 available and row 510 missing, the pass
  ends in a TypeError. Without a current cache (the call from \<^verbatim>\<open>invalidate\<close>) the
  same window fill stops at row 510 and leaves the rows 500 to 509 between the
  folds.
\<close>

theorem redraw_missing_row_throws:
  "getRowNode (rowProvider portMissing) 510 = None \<and>
   redraw portMissing = Inl TypeError \<and>
   currentRowNodeCache portMissing = None \<and>
   (case drawVisibleRows portMissing 500 524 of
      Inl err \<Rightarrow> False
    | Inr this' \<Rightarrow> map slotRowIndex (rowNodes this') =
                     None # map Some [500..509] @ [None])"
proof -
  have a: "getRowNode (rowProvider portMissing) 510 = None" by code_simp
  let ?s = "sync (resetSelectBags portMissing)"
  let ?this2 = "(syncScrollHeight (projr ?s))\<lparr>currentRowNodeCache := Some Map.empty\<rparr>"
  let ?draw = "andThen (drawTopFold ?this2 500) (\<lambda>this3.
                 andThen (drawBottomFold this3 524) (\<lambda>this4. drawVisibleRows this4 500 524))"
  have "\<not> isl ?s" by code_simp
  then have s: "?s = Inr (projr ?s)" by (cases ?s) auto
  have t2: "getTopRowIndex ?this2 = 500" by code_simp
  have b2: "getBottomRowIndex ?this2 500 = 524" by code_simp
  have "case ?draw of Inl err \<Rightarrow> err = TypeError | Inr this' \<Rightarrow> False" by code_simp
  then have d5: "?draw = Inl TypeError" by (cases ?draw) auto
  have b: "redraw portMissing = Inl TypeError"
    by (rule redraw_fails [OF s refl t2 b2 d5])
  have c: "currentRowNodeCache portMissing = None"
    by (simp add: portMissing_def portPinned_def syncScrollHeight_def Let_def port400_def
        syncRowNodesDimensions_def newScrollPort_def)
  have d: "case drawVisibleRows portMissing 500 524 of
             Inl err \<Rightarrow> False
           | Inr this' \<Rightarrow> map slotRowIndex (rowNodes this') =
                            None # map Some [500..509] @ [None]"
    by code_simp
  from a b c d show ?thesis by simp
qed

section \<open>Selection synchronisation\<close>

lemma findRow_Some: "findRow x = Some r \<Longrightarrow> x \<noteq> None"
  by (cases x) auto

lemma find_app:
  "List.find P (xs @ ys) = (case List.find P xs of None \<Rightarrow> List.find P ys | Some x \<Rightarrow> Some x)"
  by (induction xs) simp_all

lemma findFirstChild_find:
  "findFirstChild t childAry = List.find (\<lambda>i. i \<in> set childAry) (descendants t)"
  "findFirstSibling ts childAry = List.find (\<lambda>i. i \<in> set childAry) (descendantsOf ts)"
proof (induction t childAry and ts childAry rule: findFirstChild_findFirstSibling.induct)
  case (1 i ks childAry)
  then show ?case by simp
next
  case (2 childAry)
  then show ?case by simp
next
  case (3 i ks rest childAry)
  show ?case
  proof (cases "i \<in> set childAry")
    case True
    then show ?thesis by simp
  next
    case False
    show ?thesis
    proof (cases "ks = []")
      case True
      with False 3 show ?thesis by simp
    next
      case ne: False
      show ?thesis
      proof (cases "List.find (\<lambda>i. i \<in> set childAry) (descendantsOf ks)")
        case None
        with False ne 3 show ?thesis by (simp add: find_app)
      next
        case (Some rv)
        with False ne 3 show ?thesis by (simp add: find_app)
      qed
    qed
  qed
qed


lemma findFirstChild_Some:
  assumes "findFirstChild t childAry = Some n"
  shows "n \<in> set childAry \<and>
         (\<exists>before after. descendants t = before @ n # after \<and>
                          set childAry \<inter> set before = {})"
proof -
  from assms have "List.find (\<lambda>i. i \<in> set childAry) (descendants t) = Some n"
    by (simp only: findFirstChild_find)
  then obtain k where k: "k < length (descendants t)" "descendants t ! k \<in> set childAry"
      "n = descendants t ! k" "\<forall>j<k. descendants t ! j \<notin> set childAry"
    unfolding find_Some_iff by blast
  let ?d = "descendants t"
  have split: "?d = take k ?d @ n # drop (Suc k) ?d"
    using k(1,3) by (simp add: id_take_nth_drop)
  have "set childAry \<inter> set (take k ?d) = {}"
  proof -
    have "\<And>x. x \<in> set (take k ?d) \<Longrightarrow> x \<notin> set childAry"
    proof -
      fix x assume "x \<in> set (take k ?d)"
      then obtain j where "j < length (take k ?d)" "x = take k ?d ! j"
        by (auto simp: in_set_conv_nth)
      then have "j < k" "x = ?d ! j" by simp_all
      then show "x \<notin> set childAry" using k(4) by simp
    qed
    then show ?thesis by auto
  qed
  with split k(2,3) show ?thesis by blast
qed






section \<open>What a pass leaves alone\<close>

lemma fetchRowNode_frame:
  assumes "fetchRowNode this i = Inr (r, this1)"
  shows "sameFrame this this1"
proof -
  from assms have "this1 = this \<or> (\<exists>c. this1 = this\<lparr>currentRowNodeCache := c\<rparr>)"
    by (auto simp: fetchRowNode_def Let_def split: option.splits)
  then show ?thesis
  proof
    assume "this1 = this"
    then show ?thesis using sameFrame_refl by simp
  next
    assume "\<exists>c. this1 = this\<lparr>currentRowNodeCache := c\<rparr>"
    then obtain c where "this1 = this\<lparr>currentRowNodeCache := c\<rparr>" by blast
    then show ?thesis
      unfolding sameFrame_def
      by (intro exI [of _ "rowNodes this"] exI [of _ c]) simp
  qed
qed

lemma fetchOrBreak_frame:
  assumes "fetchOrBreak this i node k = Inr (turn, this', node')"
    and "\<And>rw this1. sameFrame this this1 \<Longrightarrow> k rw this1 = Inr (turn, this', node')
           \<Longrightarrow> sameFrame this this'"
  shows "sameFrame this this'"
proof -
  from assms(1) obtain r this1 where f: "fetchRowNode this i = Inr (r, this1)"
    by (cases "fetchRowNode this i") (auto simp: fetchOrBreak_def)
  note fr = fetchRowNode_frame [OF f]
  show ?thesis
  proof (cases r)
    case None
    with assms(1) f have "this' = this1" by (simp add: fetchOrBreak_def)
    with fr show ?thesis by simp
  next
    case (Some rw)
    with assms(1) f have "k rw this1 = Inr (turn, this', node')"
      by (simp add: fetchOrBreak_def)
    with fr show ?thesis by (rule assms(2))
  qed
qed

lemma andThen_frame:
  assumes "andThen m (\<lambda>xs. Inr (turn0, this1\<lparr>rowNodes := xs\<rparr>, g xs)) = Inr (turn, this', node')"
    and "sameFrame this this1"
  shows "sameFrame this this'"
proof -
  from assms(1) obtain xs where "this' = this1\<lparr>rowNodes := xs\<rparr>"
    by (cases m) auto
  then show ?thesis
    using sameFrame_trans [OF assms(2) sameFrame_rowNodes] by simp
qed

lemma andThen2_frame:
  assumes "andThen m (\<lambda>xs. andThen (h xs)
             (\<lambda>xs1. Inr (turn0, this1\<lparr>rowNodes := xs1\<rparr>, g xs1))) = Inr (turn, this', node')"
    and "sameFrame this this1"
  shows "sameFrame this this'"
proof -
  from assms(1) obtain xs where
    "andThen (h xs) (\<lambda>xs1. Inr (turn0, this1\<lparr>rowNodes := xs1\<rparr>, g xs1)) =
       Inr (turn, this', node')"
    by (cases m) auto
  then show ?thesis using assms(2) by (rule andThen_frame)
qed

lemma drawStep_frame:
  assumes "drawStep this i node = Inr (turn, this', node')"
  shows "sameFrame this this'"
proof (cases "node = Some BottomFold")
  case True
  with assms have
    "fetchOrBreak this i node (\<lambda>newNode this1.
       andThen (insertBefore (rowNodes this1) (Row newNode) node)
         (\<lambda>xs. Inr (Continue, this1\<lparr>rowNodes := xs\<rparr>, node))) = Inr (turn, this', node')"
    by (simp add: drawStep_def Let_def)
  then show ?thesis
    by (rule fetchOrBreak_frame) (rule andThen_frame)
next
  case False
  with assms obtain n where n: "node = Some n"
    by (cases node) (auto simp: drawStep_def Let_def)
  let ?sel = "selection this"
  from assms False n consider
    (a) "this' = this"
    | (b) t where "andThen (removeUntilNode (rowNodes this) node t)
               (\<lambda>xs. Inr (Continue, this\<lparr>rowNodes := xs\<rparr>, nextSibling xs t)) =
             Inr (turn, this', node')"
    | (c) "fetchOrBreak this i node (\<lambda>newNode this1.
             andThen (insertBefore (rowNodes this1) (Row newNode) node)
               (\<lambda>xs. Inr (Continue, this1\<lparr>rowNodes := xs\<rparr>, node))) = Inr (turn, this', node')"
    | (d) "fetchOrBreak this i node (\<lambda>newNode this1.
             if n = Row newNode then Inr (Continue, this1, nextSibling (rowNodes this1) n)
             else andThen (insertBefore (rowNodes this1) (Row newNode) node)
                    (\<lambda>xs. andThen (removeChild xs n)
                       (\<lambda>xs1. Inr (Continue, this1\<lparr>rowNodes := xs1\<rparr>,
                                    nextSibling xs1 (Row newNode))))) = Inr (turn, this', node')"
    unfolding drawStep_def Let_def
    by (simp split: if_splits)
  then show ?thesis
  proof cases
    case a
    then show ?thesis using sameFrame_refl by simp
  next
    case b
    then show ?thesis using sameFrame_refl by (rule andThen_frame)
  next
    case c
    then show ?thesis by (rule fetchOrBreak_frame) (rule andThen_frame)
  next
    case d
    then show ?thesis
    proof (rule fetchOrBreak_frame)
      fix rw this1
      assume fr: "sameFrame this this1"
        and k: "(if n = Row rw then Inr (Continue, this1, nextSibling (rowNodes this1) n)
                 else andThen (insertBefore (rowNodes this1) (Row rw) node)
                        (\<lambda>xs. andThen (removeChild xs n)
                           (\<lambda>xs1. Inr (Continue, this1\<lparr>rowNodes := xs1\<rparr>,
                                        nextSibling xs1 (Row rw))))) = Inr (turn, this', node')"
      show "sameFrame this this'"
      proof (cases "n = Row rw")
        case True
        with k have "this' = this1" by simp
        with fr show ?thesis by simp
      next
        case False
        with k show ?thesis using fr by (simp add: andThen2_frame)
      qed
    qed
  qed
qed


lemma drawLoop_frame:
  "drawLoop this t target dc node = Inr (this', node') \<Longrightarrow> sameFrame this this'"
proof (induction this t target dc node rule: drawLoop.induct)
  case (1 this t target dc node)
  show ?case
  proof (cases "dc < target")
    case False
    from drawLoop_done [OF False] "1.prems" show ?thesis
      using sameFrame_refl by simp
  next
    case True
    from True "1.prems" obtain turn this1 node1 where
      step: "drawStep this (t + dc) node = Inr (turn, this1, node1)"
      by (cases "drawStep this (t + dc) node")
         (auto simp: drawLoop.simps [of this t target dc node])
    note fr = drawStep_frame [OF step]
    show ?thesis
    proof (cases turn)
      case Break
      with True "1.prems" step have "this' = this1"
        by (simp add: drawLoop.simps [of this t target dc node])
      with fr show ?thesis by simp
    next
      case Continue
      with True "1.prems" step
      have "drawLoop this1 t target (dc + 1) node1 = Inr (this', node')"
        by (simp add: drawLoop.simps [of this t target dc node])
      from "1.IH" [OF True step refl Continue refl this] fr
      show ?thesis by (rule sameFrame_trans [rotated])
    qed
  qed
qed

lemma drawVisibleRows_frame:
  assumes "drawVisibleRows this t b = Inr this'"
  shows "sameFrame this this'"
proof -
  let ?target = "min (visibleRowCount this) (getRowCount (rowProvider this))"
  let ?node = "nextSibling (rowNodes this) TopFold"
  from assms obtain this1 node1 where
    loop: "drawLoop this t ?target 0 ?node = Inr (this1, node1)"
    and fin: "(if node1 \<noteq> Some BottomFold
               then andThen (removeUntilNode (rowNodes this1) node1 BottomFold)
                      (\<lambda>xs. Inr (this1\<lparr>rowNodes := xs\<rparr>))
               else Inr this1) = Inr this'"
    by (cases "drawLoop this t ?target 0 ?node") (auto simp: drawVisibleRows_def Let_def)
  note fr = drawLoop_frame [OF loop]
  have "sameFrame this1 this'"
  proof (cases "node1 = Some BottomFold")
    case True
    with fin show ?thesis using sameFrame_refl by simp
  next
    case False
    with fin obtain xs where "this' = this1\<lparr>rowNodes := xs\<rparr>"
      by (cases "removeUntilNode (rowNodes this1) node1 BottomFold") auto
    then show ?thesis using sameFrame_rowNodes by simp
  qed
  with fr show ?thesis by (rule sameFrame_trans)
qed

lemma redraw_scheduler_fields:
  assumes pass: "redraw this = Inr this'"
  shows "timeouts_redraw this' = timeouts_redraw this \<and>
         pendingTasks this' = pendingTasks this"
proof (rule redraw_steps [OF pass])
  fix this1 this3 this4 this5
  assume s1: "sync (resetSelectBags this) = Inr this1"
    and s3: "drawTopFold ((syncScrollHeight this1)\<lparr>currentRowNodeCache := Some Map.empty\<rparr>)
               (getTopRowIndex this1) = Inr this3"
    and s4: "drawBottomFold this3 (getBottomRowIndex this1 (getTopRowIndex this1)) = Inr this4"
    and s5: "drawVisibleRows this4 (getTopRowIndex this1)
               (getBottomRowIndex this1 (getTopRowIndex this1)) = Inr this5"
    and fin: "timeouts_redraw this' = timeouts_redraw this5"
      "pendingTasks this' = pendingTasks this5"
  from sync_frame [OF s1] obtain sel where
    this1: "this1 = (resetSelectBags this)\<lparr>selection := sel\<rparr>" by blast
  from drawTopFold_frame [OF s3] obtain ys where
    this3: "this3 = (syncScrollHeight this1)\<lparr>currentRowNodeCache := Some Map.empty,
                       rowNodes := ys\<rparr>" by auto
  from drawBottomFold_frame [OF s4] obtain zs where
    this4: "this4 = this3\<lparr>rowNodes := zs\<rparr>" by blast
  have "timeouts_redraw this4 = timeouts_redraw this" "pendingTasks this4 = pendingTasks this"
    unfolding this4 this3 this1
    by (simp_all add: syncScrollHeight_def Let_def resetSelectBags_fields)
  with sameFrame_fields [OF drawVisibleRows_frame [OF s5]] fin
  show "timeouts_redraw this' = timeouts_redraw this \<and>
        pendingTasks this' = pendingTasks this"
    by simp
qed

section \<open>Coalescing of redraw requests\<close>

lemma scheduleRedraw_idle:
  assumes "idle this"
  shows "scheduleRedraw this =
           this\<lparr>timeouts_redraw := Some (Suc 0), pendingTasks := [RedrawTask]\<rparr>"
  using assms by (simp add: idle_def scheduleRedraw_def)

lemma scheduleRedraw_pending:
  "timeouts_redraw this \<noteq> None \<Longrightarrow> scheduleRedraw this = this"
  by (auto simp: scheduleRedraw_def)

lemma scheduleRedraw_repeat:
  assumes "idle this"
  shows "(scheduleRedraw ^^ Suc k) this = scheduleRedraw this"
proof (induction k)
  case 0
  show ?case by simp
next
  case (Suc k)
  have "timeouts_redraw (scheduleRedraw this) \<noteq> None"
    by (simp add: scheduleRedraw_idle [OF assms])
  then have "scheduleRedraw (scheduleRedraw this) = scheduleRedraw this"
    by (rule scheduleRedraw_pending)
  with Suc show ?case by simp
qed

text \<open>
  C8. From the idle state, \<open>k \<ge> 1\<close> calls of \<^verbatim>\<open>scheduleRedraw\<close> leave exactly one
  callback pending: the first call arms it and every further call changes
  nothing. When the event loop runs it, the effect is one pass of \<^verbatim>\<open>redraw_\<close> on
  the state before the calls; a completed pass leaves the scheduler idle, and a
  new call arms a callback again.
\<close>

theorem scheduleRedraw_coalesces:
  assumes "idle this" and "0 < k"
  shows "pendingTasks ((scheduleRedraw ^^ k) this) = [RedrawTask] \<and>
         (scheduleRedraw ^^ k) this = scheduleRedraw this \<and>
         scheduleRedraw ((scheduleRedraw ^^ k) this) = (scheduleRedraw ^^ k) this \<and>
         runNextTask ((scheduleRedraw ^^ k) this) = redraw this \<and>
         (\<forall>this'. redraw this = Inr this' \<longrightarrow>
            idle this' \<and> pendingTasks (scheduleRedraw this') = [RedrawTask])"
proof -
  from assms(2) obtain j where k: "k = Suc j" by (cases k) auto
  have rep: "(scheduleRedraw ^^ k) this = scheduleRedraw this"
    unfolding k by (rule scheduleRedraw_repeat [OF assms(1)])
  note armed = scheduleRedraw_idle [OF assms(1)]
  have restored: "this\<lparr>pendingTasks := [], timeouts_redraw := None\<rparr> = this"
    using assms(1) by (simp add: idle_def)
  have run: "runNextTask (scheduleRedraw this) = redraw this"
    unfolding armed by (simp add: runNextTask_def redrawTimeout_def restored)
  have again: "scheduleRedraw (scheduleRedraw this) = scheduleRedraw this"
    by (rule scheduleRedraw_pending) (simp add: armed)
  have after: "idle this' \<and> pendingTasks (scheduleRedraw this') = [RedrawTask]"
    if "redraw this = Inr this'" for this'
  proof -
    from redraw_scheduler_fields [OF that] assms(1) have "idle this'"
      by (simp add: idle_def)
    then show ?thesis by (simp add: scheduleRedraw_idle)
  qed
  show ?thesis
    unfolding rep using run again after by (simp add: armed)
qed

theorem scheduleRedraw_coalesces_witness:
  "pendingTasks ((scheduleRedraw ^^ 3) portPinned) = [RedrawTask] \<and>
   runNextTask ((scheduleRedraw ^^ 3) portPinned) = redraw portPinned"
proof -
  have h1: "idle portPinned"
    by (simp add: idle_def portPinned_def syncScrollHeight_def Let_def port400_def
        syncRowNodesDimensions_def newScrollPort_def)
  have h2: "(0::nat) < 3" by simp
  from scheduleRedraw_coalesces [OF h1 h2] show ?thesis by blast
qed

section \<open>Copy events\<close>





section \<open>Selection rows pinned outside the window\<close>

lemma removeLeading_mid:
  "s \<notin> set A \<Longrightarrow> removeLeading (A @ s # R) s = Inr (s # R)"
  by (induction A) auto

lemma removeTrailing_mid:
  "e \<notin> set B \<Longrightarrow> removeTrailing (L @ e # B) e = Inr (L @ [e])"
proof (induction B rule: rev_induct)
  case Nil
  show ?case by (simp add: removeTrailing.simps [of "L @ [e]" e])
next
  case (snoc b B)
  then have "b \<noteq> e" and "e \<notin> set B" by auto
  have "removeTrailing (L @ e # B @ [b]) e = removeTrailing (butlast (L @ e # B @ [b])) e"
    using \<open>b \<noteq> e\<close> by (simp add: removeTrailing.simps [of "L @ e # B @ [b]" e])
  also have "butlast (L @ e # B @ [b]) = L @ e # B"
    by (simp add: butlast_append)
  finally show ?case using snoc.IH [OF \<open>e \<notin> set B\<close>] by simp
qed

lemma removeUntilNode_total:
  assumes "distinct (L @ S @ t # R)" and "BottomFold \<notin> set S"
  shows "removeUntilNode (L @ S @ t # R) (firstChild (S @ t # R)) t = Inr (L @ t # R)"
  using assms
proof (induction S)
  case Nil
  show ?case by simp
next
  case (Cons d S)
  have dt: "d \<noteq> t" and db: "d \<noteq> BottomFold" and dL: "d \<notin> set L"
    using Cons.prems by auto
  have rem: "remove1 d (L @ d # S @ t # R) = L @ S @ t # R"
    using dL by (rule remove1_mid)
  have nxt: "nextSibling (L @ d # S @ t # R) d = firstChild (S @ t # R)"
    using dL by (rule nextSibling_mid)
  have "distinct (L @ S @ t # R)" "BottomFold \<notin> set S" using Cons.prems by auto
  from Cons.IH [OF this] show ?case
    using dt db by (simp add: removeUntilNode_step rem nxt)
qed

lemma nextSibling_split:
  "nextSibling xs a = Some b \<Longrightarrow> \<exists>L R. xs = L @ a # b # R"
proof (induction xs a rule: nextSibling.induct)
  case (3 c d xs n)
  show ?case
  proof (cases "c = n")
    case True
    with 3 have "d = b" by simp
    with True show ?thesis by (intro exI [of _ "[]"] exI [of _ xs]) simp
  next
    case False
    with 3 obtain L R where "d # xs = L @ n # b # R" by auto
    then have "c # d # xs = (c # L) @ n # b # R" by simp
    then show ?thesis by blast
  qed
qed simp_all

lemma split_unique:
  "a \<notin> set L1 \<Longrightarrow> a \<notin> set L2 \<Longrightarrow> L1 @ a # R1 = L2 @ a # R2 \<Longrightarrow> L1 = L2 \<and> R1 = R2"
proof (induction L1 arbitrary: L2)
  case Nil
  then show ?case by (cases L2) auto
next
  case (Cons c L1)
  then show ?case by (cases L2) auto
qed

lemma drawTopFoldNodes_pinned:
  assumes dist: "distinct xs" and xs: "xs = A @ Row s # M @ Row e # B"
    and sel: "startRow sel = Some s" "endRow sel = Some e" "isMultiline sel = Some True"
    and above: "rowIndex s < t" and below: "t \<le> rowIndex e"
  shows "drawTopFoldNodes sel t xs =
           Inr (Row s # TopFold # remove1 TopFold M @ Row e # remove1 TopFold B)"
proof -
  let ?R0 = "M @ Row e # B"
  obtain m0 R where R0: "?R0 = m0 # R" by (cases ?R0) auto
  have dR0: "distinct ?R0" using dist xs by auto
  have sA: "Row s \<notin> set A" using dist xs by auto
  have nxt: "nextSibling xs (Row s) = Some m0"
    unfolding xs using nextSibling_mid [OF sA, of ?R0] R0 by simp
  have tail: "remove1 TopFold ?R0 = remove1 TopFold M @ Row e # remove1 TopFold B"
    using dR0 by (rule remove1_split) simp
  let ?placed = "if nextSibling xs (Row s) \<noteq> Some TopFold
                 then insertBefore xs TopFold (nextSibling xs (Row s)) else Inr xs"
  have unfold: "drawTopFoldNodes sel t xs =
                  andThen ?placed (\<lambda>xs1. removeLeading xs1 (Row s))"
    using sel above below by (simp add: drawTopFoldNodes_def Let_def)
  have "andThen ?placed (\<lambda>xs1. removeLeading xs1 (Row s)) =
          Inr (Row s # TopFold # remove1 TopFold ?R0)"
  proof (cases "m0 = TopFold")
    case True
    then have "remove1 TopFold ?R0 = R" using R0 by simp
    moreover have "removeLeading xs (Row s) = Inr (Row s # ?R0)"
      unfolding xs using sA by (rule removeLeading_mid)
    ultimately show ?thesis using nxt True R0 by simp
  next
    case False
    have xs': "xs = (A @ [Row s]) @ m0 # R" using xs R0 by simp
    have d': "distinct ((A @ [Row s]) @ m0 # R)" using dist xs' by simp
    have neq: "TopFold \<noteq> m0" using False by simp
    have ins: "insertBefore xs TopFold (Some m0) =
                 Inr (remove1 TopFold (A @ [Row s]) @ TopFold # m0 # remove1 TopFold R)"
      using insertBefore_mid [OF d' neq] xs' by simp
    have pre: "remove1 TopFold (A @ [Row s]) = remove1 TopFold A @ [Row s]"
      by (simp add: remove1_append remove1_idem)
    have sA': "Row s \<notin> set (remove1 TopFold A)"
      using sA set_remove1_subset [of TopFold A] by auto
    have "removeLeading (remove1 TopFold A @ Row s # TopFold # m0 # remove1 TopFold R) (Row s) =
            Inr (Row s # TopFold # m0 # remove1 TopFold R)"
      using sA' by (rule removeLeading_mid)
    moreover have "m0 # remove1 TopFold R = remove1 TopFold ?R0"
      using R0 False by simp
    ultimately show ?thesis using nxt False ins pre by simp
  qed
  then show ?thesis unfolding unfold tail .
qed

lemma drawBottomFoldNodes_pinned:
  assumes dist: "distinct ys" and ys: "ys = L @ Row e # B"
    and sel: "startRow sel = Some s" "endRow sel = Some e" "isMultiline sel = Some True"
    and above: "rowIndex s \<le> b" and below: "b < rowIndex e"
  shows "drawBottomFoldNodes sel b ys = Inr (remove1 BottomFold L @ [BottomFold, Row e])"
proof -
  have eL: "Row e \<notin> set L" and eB: "Row e \<notin> set B" using dist ys by auto
  let ?placed = "if nextSibling ys BottomFold \<noteq> Some (Row e)
                 then insertBefore ys BottomFold (Some (Row e)) else Inr ys"
  have unfold: "drawBottomFoldNodes sel b ys =
                  andThen ?placed (\<lambda>xs1. removeTrailing xs1 (Row e))"
    using sel above below by (simp add: drawBottomFoldNodes_def Let_def)
  have "andThen ?placed (\<lambda>xs1. removeTrailing xs1 (Row e)) =
          Inr (remove1 BottomFold L @ [BottomFold, Row e])"
  proof (cases "nextSibling ys BottomFold = Some (Row e)")
    case True
    from nextSibling_split [OF True] obtain L' R' where
      split: "ys = L' @ BottomFold # Row e # R'" by blast
    then have "L @ Row e # B = (L' @ [BottomFold]) @ Row e # R'" using ys by simp
    moreover have "Row e \<notin> set (L' @ [BottomFold])" using dist split by auto
    ultimately have L: "L = L' @ [BottomFold]" using split_unique [OF eL] by blast
    have "BottomFold \<notin> set L'" using dist split by auto
    then have "remove1 BottomFold L = L'" unfolding L by (simp add: remove1_append)
    moreover have "removeTrailing ys (Row e) = Inr (L @ [Row e])"
      unfolding ys using eB by (rule removeTrailing_mid)
    ultimately show ?thesis using True L by simp
  next
    case False
    have d': "distinct (L @ Row e # B)" using dist ys by simp
    have ins: "insertBefore ys BottomFold (Some (Row e)) =
                 Inr (remove1 BottomFold L @ BottomFold # Row e # remove1 BottomFold B)"
      using insertBefore_mid [OF d', of BottomFold] ys by simp
    have "Row e \<notin> set (remove1 BottomFold B)"
      using eB set_remove1_subset [of BottomFold B] by auto
    then have "removeTrailing ((remove1 BottomFold L @ [BottomFold]) @ Row e #
                   remove1 BottomFold B) (Row e) =
               Inr ((remove1 BottomFold L @ [BottomFold]) @ [Row e])"
      by (rule removeTrailing_mid)
    then show ?thesis using False ins by simp
  qed
  then show ?thesis unfolding unfold .
qed

end
